theory Spec2Isabelle
  imports Main "HOL-Library.Word" "HOL-Library.Signed_Division"
begin

unbundle bit_operations_syntax

section \<open>C integers\<close>

text \<open>
  The driver is C++ for 32-bit microcontrollers: \<open>int\<close> and \<open>size_t\<close> have 32 bits, and
  every operand narrower than \<open>int\<close> is promoted to \<open>int\<close> before arithmetic. Values of
  the integer types are modelled as \<open>int\<close>; the conversion that an assignment to a
  narrower variable performs is written out. \<open>/\<close> and \<open>%\<close> of C truncate towards zero:
  they are \<open>sdiv\<close> and \<open>smod\<close>. Bytes of the frame buffer are \<open>8 word\<close>.
\<close>

type_synonym uint8 = "8 word"

definition int16 :: "int \<Rightarrow> int" where
  "int16 v = (v + 32768) mod 65536 - 32768"

definition uint16 :: "int \<Rightarrow> int" where
  "uint16 v = v mod 65536"

definition uint8 :: "int \<Rightarrow> int" where
  "uint8 v = v mod 256"

definition size_t :: "int \<Rightarrow> int" where
  "size_t v = v mod 4294967296"

section \<open>Driver state\<close>

text \<open>
  \<open>WIDTH\<close>, \<open>HEIGHT\<close>, \<open>_width\<close>, \<open>_height\<close> and \<open>rotation\<close> are the members the
  driver inherits from the graphics base class (\<open>int16_t\<close>, \<open>int16_t\<close>, \<open>int16_t\<close>,
  \<open>int16_t\<close>, \<open>uint8_t\<close>); \<open>sharpmem_buffer\<close> is the block obtained from \<open>malloc\<close>, a list
  of its bytes; \<open>sharpmem_vcom\<close> is the polarity byte; \<open>cs\<close> is the chip-select pin.
\<close>

record sharpmem =
  WIDTH :: int
  HEIGHT :: int
  gfx_width :: int
  gfx_height :: int
  rotation :: int
  sharpmem_buffer :: "uint8 list"
  sharpmem_vcom :: uint8
  cs :: int

text \<open>
  The three command bits come from the header, which is not part of the sources at hand:
  they are a parameter of the operations that use them.
\<close>

record sharpmem_bits =
  SHARPMEM_BIT_WRITECMD :: uint8
  SHARPMEM_BIT_VCOM :: uint8
  SHARPMEM_BIT_CLEAR :: uint8

text \<open>What the driver does on the bus and on its pins, in order.\<close>

datatype pin_level = LOW | HIGH

datatype spi_event =
    BeginTransaction
  | DigitalWrite int pin_level
  | Transfer "uint8 list"
  | EndTransaction

fun wire_bytes :: "spi_event list \<Rightarrow> uint8 list" where
  "wire_bytes [] = []"
| "wire_bytes (Transfer bs # es) = bs @ wire_bytes es"
| "wire_bytes (e # es) = wire_bytes es"

text \<open>The macro \<open>TOGGLE_VCOM\<close>.\<close>

definition TOGGLE_VCOM :: "sharpmem_bits \<Rightarrow> sharpmem \<Rightarrow> sharpmem" where
  "TOGGLE_VCOM h s =
     s\<lparr>sharpmem_vcom := (if sharpmem_vcom s \<noteq> 0 then 0x00 else SHARPMEM_BIT_VCOM h)\<rparr>"

text \<open>
  \<open>setRotation\<close> of the graphics base class: the only writer of \<open>rotation\<close>, \<open>_width\<close>
  and \<open>_height\<close>.
\<close>

definition setRotation :: "sharpmem \<Rightarrow> int \<Rightarrow> sharpmem" where
  "setRotation s r =
     (let rot = r AND 3 in
      if rot = 1 \<or> rot = 3
      then s\<lparr>rotation := rot, gfx_width := HEIGHT s, gfx_height := WIDTH s\<rparr>
      else s\<lparr>rotation := rot, gfx_width := WIDTH s, gfx_height := HEIGHT s\<rparr>)"

section \<open>Memory accesses\<close>

text \<open>
  An access outside the allocated block has no defined behaviour in C: it is the
  result \<open>None\<close>. \<open>poke buf i f\<close> is the read-modify-write \<open>buf[i] = f(buf[i])\<close>,
  \<open>peek buf i\<close> the read \<open>buf[i]\<close>, \<open>memset_buf buf p v n\<close> is \<open>memset(buf + p, v, n)\<close>.
\<close>

definition poke :: "uint8 list \<Rightarrow> int \<Rightarrow> (uint8 \<Rightarrow> uint8) \<Rightarrow> uint8 list option" where
  "poke buf i f =
     (if 0 \<le> i \<and> i < int (length buf) then Some (buf[nat i := f (buf ! nat i)]) else None)"

definition peek :: "uint8 list \<Rightarrow> int \<Rightarrow> uint8 option" where
  "peek buf i = (if 0 \<le> i \<and> i < int (length buf) then Some (buf ! nat i) else None)"

definition memset_buf :: "uint8 list \<Rightarrow> int \<Rightarrow> uint8 \<Rightarrow> int \<Rightarrow> uint8 list option" where
  "memset_buf buf p v n =
     (if n = 0 then Some buf
      else if 0 \<le> p \<and> 0 \<le> n \<and> p + n \<le> int (length buf)
      then Some (take (nat p) buf @ replicate (nat n) v @ drop (nat (p + n)) buf)
      else None)"

definition with_buffer :: "sharpmem \<Rightarrow> uint8 list option \<Rightarrow> sharpmem option" where
  "with_buffer s r = map_option (\<lambda>b. s\<lparr>sharpmem_buffer := b\<rparr>) r"

text \<open>The lookup tables \<open>set[]\<close> and \<open>clr[]\<close>.\<close>

definition set_tbl :: "uint8 list" where
  "set_tbl = [1, 2, 4, 8, 16, 32, 64, 128]"

definition clr_tbl :: "uint8 list" where
  "clr_tbl = [NOT 1, NOT 2, NOT 4, NOT 8, NOT 16, NOT 32, NOT 64, NOT 128]"

section \<open>Pixels\<close>

text \<open>
  \<open>drawPixel(x, y, color)\<close> with \<open>x\<close>, \<open>y\<close> of type \<open>int16_t\<close> and \<open>color\<close> of type
  \<open>uint16_t\<close>. Colours 0 and 1 address the byte by the row stride \<open>(WIDTH + 7) / 8\<close>,
  colours 2 to 7 by \<open>(y * WIDTH + x) / 8\<close>.
\<close>

definition drawPixel :: "sharpmem \<Rightarrow> int \<Rightarrow> int \<Rightarrow> int \<Rightarrow> sharpmem option" where
  "drawPixel s x0 y0 color =
     (if x0 < 0 \<or> x0 \<ge> gfx_width s \<or> y0 < 0 \<or> y0 \<ge> gfx_height s then Some s
      else
        let (x, y) =
              (if rotation s = 1 then (int16 (WIDTH s - 1 - y0), x0)
               else if rotation s = 2 then (int16 (WIDTH s - 1 - x0), int16 (HEIGHT s - 1 - y0))
               else if rotation s = 3 then (y0, int16 (HEIGHT s - 1 - x0))
               else (x0, y0));
            buf = sharpmem_buffer s;
            strided = (x sdiv 8) + y * ((WIDTH s + 7) sdiv 8);
            flat = (y * WIDTH s + x) sdiv 8;
            setb = (\<lambda>v. v OR set_tbl ! nat (x AND 7));
            clrb = (\<lambda>v. v AND clr_tbl ! nat (x AND 7))
        in
          if color = 1 then with_buffer s (poke buf strided setb)
          else if color = 7 then
            (if y smod 3 = 2 - (x smod 3) then with_buffer s (poke buf flat clrb)
             else with_buffer s (poke buf flat setb))
          else if color = 6 then
            (if y smod 3 = x smod 3 then with_buffer s (poke buf flat clrb)
             else with_buffer s (poke buf flat setb))
          else if color = 5 then
            (if (y smod 4 = 0 \<and> x smod 4 = 2) \<or> (x smod 2 = 1 \<and> y smod 2 = 1)
                \<or> (y smod 4 = 2 \<and> x smod 4 = 0)
             then with_buffer s (poke buf flat clrb)
             else with_buffer s (poke buf flat setb))
          else if color = 4 then
            (if y smod 2 \<noteq> 0 then with_buffer s (poke buf flat setb)
             else if (x + 2 * ((y sdiv 2) smod 2)) smod 4 = 0
             then with_buffer s (poke buf flat clrb)
             else with_buffer s (poke buf flat setb))
          else if color = 3 then
            (if y smod 2 \<noteq> 0 then with_buffer s (poke buf flat clrb)
             else if (x + 2 * ((y sdiv 2) smod 2)) smod 4 = 0
             then with_buffer s (poke buf flat setb)
             else with_buffer s (poke buf flat clrb))
          else if color = 2 then
            (if (x + y) smod 2 = 0 then with_buffer s (poke buf flat setb)
             else with_buffer s (poke buf flat clrb))
          else with_buffer s (poke buf strided clrb))"

text \<open>\<open>getPixel(x, y)\<close> with \<open>x\<close>, \<open>y\<close> of type \<open>uint16_t\<close>; the result is 0 or 1.\<close>

definition getPixel :: "sharpmem \<Rightarrow> int \<Rightarrow> int \<Rightarrow> int option" where
  "getPixel s x0 y0 =
     (if x0 \<ge> gfx_width s \<or> y0 \<ge> gfx_height s then Some 0
      else
        let (x, y) =
              (if rotation s = 1 then (uint16 (WIDTH s - 1 - y0), x0)
               else if rotation s = 2 then (uint16 (WIDTH s - 1 - x0), uint16 (HEIGHT s - 1 - y0))
               else if rotation s = 3 then (y0, uint16 (HEIGHT s - 1 - x0))
               else (x0, y0))
        in map_option (\<lambda>v. if v AND set_tbl ! nat (x AND 7) \<noteq> 0 then 1 else 0)
             (peek (sharpmem_buffer s) ((y * WIDTH s + x) sdiv 8)))"

section \<open>Bulk buffer operations\<close>

definition buffer_bytes :: "sharpmem \<Rightarrow> int" where
  "buffer_bytes s = size_t ((WIDTH s * HEIGHT s) sdiv 8)"

definition clearDisplayBuffer :: "sharpmem \<Rightarrow> sharpmem option" where
  "clearDisplayBuffer s =
     with_buffer s (memset_buf (sharpmem_buffer s) 0 0xff (buffer_bytes s))"

text \<open>\<open>copyPixelBuffer\<close> returns the bytes it stores through its argument.\<close>

definition copyPixelBuffer :: "sharpmem \<Rightarrow> uint8 list option" where
  "copyPixelBuffer s =
     (if buffer_bytes s \<le> int (length (sharpmem_buffer s))
      then Some (take (nat (buffer_bytes s)) (sharpmem_buffer s)) else None)"

definition setBitmap :: "sharpmem \<Rightarrow> uint8 list \<Rightarrow> sharpmem option" where
  "setBitmap s bitmap =
     (let n = buffer_bytes s; buf = sharpmem_buffer s in
      if n \<le> int (length buf) \<and> n \<le> int (length bitmap)
      then Some (s\<lparr>sharpmem_buffer := take (nat n) bitmap @ drop (nat n) buf\<rparr>)
      else None)"

section \<open>Runs\<close>

text \<open>
  \<open>drawFastRawVLine(x, y, h, color)\<close>: the two loops over the column, one for each
  branch of \<open>color > 0\<close>; the pointer advances by \<open>row_bytes\<close> after every access.
\<close>

fun vline_or :: "uint8 list \<Rightarrow> int \<Rightarrow> int \<Rightarrow> uint8 \<Rightarrow> nat \<Rightarrow> uint8 list option" where
  "vline_or buf p row_bytes bit_mask 0 = Some buf"
| "vline_or buf p row_bytes bit_mask (Suc n) =
     (case poke buf p (\<lambda>v. v OR bit_mask) of
        None \<Rightarrow> None
      | Some buf' \<Rightarrow> vline_or buf' (p + row_bytes) row_bytes bit_mask n)"

fun vline_and :: "uint8 list \<Rightarrow> int \<Rightarrow> int \<Rightarrow> uint8 \<Rightarrow> nat \<Rightarrow> uint8 list option" where
  "vline_and buf p row_bytes bit_mask 0 = Some buf"
| "vline_and buf p row_bytes bit_mask (Suc n) =
     (case poke buf p (\<lambda>v. v AND bit_mask) of
        None \<Rightarrow> None
      | Some buf' \<Rightarrow> vline_and buf' (p + row_bytes) row_bytes bit_mask n)"

definition drawFastRawVLine :: "sharpmem \<Rightarrow> int \<Rightarrow> int \<Rightarrow> int \<Rightarrow> int \<Rightarrow> sharpmem option" where
  "drawFastRawVLine s x y h color =
     (let row_bytes = int16 ((WIDTH s + 7) sdiv 8);
          p = (x sdiv 8) + y * row_bytes
      in
        if color > 0 then
          let bit_mask = set_tbl ! nat (x AND 7);
              bit_mask = (if color = 2
                          then (if y smod 2 = 0 then bit_mask AND 0xAA else bit_mask AND 0x55)
                          else bit_mask)
          in with_buffer s (vline_or (sharpmem_buffer s) p row_bytes bit_mask (nat h))
        else
          with_buffer s
            (vline_and (sharpmem_buffer s) p row_bytes (clr_tbl ! nat (x AND 7)) (nat h)))"

text \<open>
  \<open>drawFastRawHLine\<close>. The row patterns of colours 7, 6 and 5 are a \<open>switch (y % 4)\<close>
  over a variable that holds \<open>d\<close> before the switch; the source writes the same
  \<open>if\<close> chain for the first and for the last byte of a run (\<open>partial_byte\<close>) and a
  second one for the bytes in between (\<open>whole_byte\<close>).
\<close>

definition pattern7 :: "int \<Rightarrow> uint8 \<Rightarrow> uint8" where
  "pattern7 y d =
     (if y smod 4 = 0 then 0x77 else if y smod 4 = 1 then 0xBB
      else if y smod 4 = 2 then 0xDD else if y smod 4 = 3 then 0xEE else d)"

definition pattern6 :: "int \<Rightarrow> uint8 \<Rightarrow> uint8" where
  "pattern6 y d =
     (if y smod 4 = 0 then 0xEE else if y smod 4 = 1 then 0xDD
      else if y smod 4 = 2 then 0xBB else if y smod 4 = 3 then 0x77 else d)"

definition pattern5 :: "int \<Rightarrow> uint8 \<Rightarrow> uint8" where
  "pattern5 y d =
     (if y smod 4 = 0 then 0xEE else if y smod 4 = 1 then 0x55
      else if y smod 4 = 2 then 0xBB else if y smod 4 = 3 then 0x55 else d)"

definition masked :: "uint8 \<Rightarrow> uint8 \<Rightarrow> uint8 \<Rightarrow> uint8" where
  "masked m pattern v = (v AND NOT (m AND NOT pattern)) OR (m AND pattern)"

definition partial_byte :: "int \<Rightarrow> int \<Rightarrow> uint8 \<Rightarrow> uint8 \<Rightarrow> uint8" where
  "partial_byte color y m v =
     (if color = 7 then masked m (pattern7 y 0x00) v
      else if color = 6 then masked m (pattern6 y 0x00) v
      else if color = 5 then masked m (pattern5 y 0x00) v
      else if color = 4 then (if y smod 2 \<noteq> 0 then v OR m else masked m 0x55 v)
      else if color = 3 then (if y smod 2 \<noteq> 0 then v AND NOT m else masked m 0xAA v)
      else if color = 2 then (if y smod 2 = 0 then masked m 0xAA v else masked m 0x55 v)
      else if color = 1 then v OR m
      else v AND NOT m)"

definition whole_byte :: "int \<Rightarrow> int \<Rightarrow> uint8" where
  "whole_byte color y =
     (let wholeByteColor = (if color > 0 then 0xFF else 0x00) in
      if color = 7 then pattern7 y wholeByteColor
      else if color = 6 then pattern6 y wholeByteColor
      else if color = 5 then pattern5 y wholeByteColor
      else if color = 4 then (if y smod 2 \<noteq> 0 then 0xFF else 0x55)
      else if color = 3 then (if y smod 2 \<noteq> 0 then 0x00 else 0xAA)
      else if color = 2 then (if y smod 2 = 0 then 0xAA else 0x55)
      else wholeByteColor)"

text \<open>
  The loop that builds \<open>startByteBitMask\<close>, from bit \<open>i\<close> on, and counts
  \<open>remainingWidthBits\<close> down; and the loop that builds \<open>lastByteBitMask\<close>.
\<close>

function start_mask :: "nat \<Rightarrow> int \<Rightarrow> uint8 \<Rightarrow> uint8 \<times> int" where
  "start_mask i remaining m =
     (if i < 8 \<and> remaining > 0
      then start_mask (i + 1) (remaining - 1) (m OR set_tbl ! i)
      else (m, remaining))"
  by pat_completeness auto
termination
  by (relation "measure (\<lambda>(i, remaining, m). 8 - i)") auto

function last_mask :: "nat \<Rightarrow> nat \<Rightarrow> uint8 \<Rightarrow> uint8" where
  "last_mask i lastByteBits m =
     (if i < lastByteBits then last_mask (i + 1) lastByteBits (m OR set_tbl ! i) else m)"
  by pat_completeness auto
termination
  by (relation "measure (\<lambda>(i, lastByteBits, m). lastByteBits - i)") auto

declare start_mask.simps [simp del]
declare last_mask.simps [simp del]

definition drawFastRawHLine :: "sharpmem \<Rightarrow> int \<Rightarrow> int \<Rightarrow> int \<Rightarrow> int \<Rightarrow> sharpmem option" where
  "drawFastRawHLine s x y w color =
     (let rowBytes = int16 ((WIDTH s + 7) sdiv 8);
          p = (x sdiv 8) + y * rowBytes;
          remainingWidthBits = size_t w;
          buf = sharpmem_buffer s;
          first =
            (if (x AND 7) > 0 then
               let (startByteBitMask, remaining) = start_mask (nat (x AND 7)) remainingWidthBits 0x00
               in map_option (\<lambda>b. (b, p + 1, remaining))
                    (poke buf p (partial_byte color y startByteBitMask))
             else Some (buf, p, remainingWidthBits))
      in
        case first of
          None \<Rightarrow> None
        | Some (buf1, p1, remaining) \<Rightarrow>
            if remaining > 0 then
              let remainingWholeBytes = remaining div 8;
                  lastByteBits = remaining mod 8
              in
                case memset_buf buf1 p1 (whole_byte color y) remainingWholeBytes of
                  None \<Rightarrow> None
                | Some buf2 \<Rightarrow>
                    if lastByteBits > 0
                    then with_buffer s
                           (poke buf2 (p1 + remainingWholeBytes)
                              (partial_byte color y (last_mask 0 (nat lastByteBits) 0x00)))
                    else Some (s\<lparr>sharpmem_buffer := buf2\<rparr>)
            else Some (s\<lparr>sharpmem_buffer := buf1\<rparr>))"

text \<open>
  \<open>drawFastHLine(x, y, w, color)\<close> in logical coordinates: negative widths, rejection,
  clipping, then the raw run that the rotation selects. \<open>width()\<close>, \<open>height()\<close> and
  \<open>getRotation()\<close> read \<open>_width\<close>, \<open>_height\<close> and \<open>rotation\<close>.
\<close>

definition drawFastHLine :: "sharpmem \<Rightarrow> int \<Rightarrow> int \<Rightarrow> int \<Rightarrow> int \<Rightarrow> sharpmem option" where
  "drawFastHLine s x0 y0 w0 color =
     (let (x1, w1) =
            (if w0 < 0 then
               let w = int16 (w0 * -1);
                   x = int16 (x0 - (w - 1))
               in if x < 0 then (0, int16 (w + x)) else (x, w)
             else (x0, w0))
      in
        if y0 < 0 \<or> y0 \<ge> gfx_height s \<or> x1 \<ge> gfx_width s \<or> x1 + w1 - 1 < 0 then Some s
        else
          let (x2, w2) = (if x1 < 0 then (0, int16 (w1 + x1)) else (x1, w1));
              w = (if x2 + w2 \<ge> gfx_width s then int16 (gfx_width s - x2) else w2)
          in
            if rotation s = 0 then drawFastRawHLine s x2 y0 w color
            else if rotation s = 1 then
              drawFastRawVLine s (int16 (WIDTH s - 1 - y0)) x2 w color
            else if rotation s = 2 then
              drawFastRawHLine s (int16 (int16 (WIDTH s - 1 - x2) - (w - 1)))
                (int16 (HEIGHT s - 1 - y0)) w color
            else if rotation s = 3 then
              drawFastRawVLine s y0 (int16 (int16 (HEIGHT s - 1 - x2) - (w - 1))) w color
            else Some s)"

text \<open>
  \<open>fillRect\<close>: the loop \<open>for (int16_t i = y; i < y + h; i++)\<close>. The bound is computed in
  \<open>int\<close>, the counter is an \<open>int16_t\<close>, so the loop need not end.
\<close>

partial_function (option) fillRect_loop ::
  "sharpmem \<Rightarrow> int \<Rightarrow> int \<Rightarrow> int \<Rightarrow> int \<Rightarrow> int \<Rightarrow> sharpmem option" where
  "fillRect_loop s i bound x w color =
     (if i < bound then
        (case drawFastHLine s x i w color of
           None \<Rightarrow> None
         | Some s' \<Rightarrow> fillRect_loop s' (int16 (i + 1)) bound x w color)
      else Some s)"

declare fillRect_loop.simps [code]

definition fillRect :: "sharpmem \<Rightarrow> int \<Rightarrow> int \<Rightarrow> int \<Rightarrow> int \<Rightarrow> int \<Rightarrow> sharpmem option" where
  "fillRect s x y w h color = fillRect_loop s y (y + h) x w color"

text \<open>
  \<open>drawFatLine\<close> computes the perpendicular in floating point and hands two triangles
  to \<open>fillTriangle\<close> of the graphics base class, which draws each of them as a sequence
  of \<open>drawFastHLine\<close> calls. Both are outside the driver: \<open>perp\<close> stands for the
  floating-point part (\<open>None\<close> when the length is below 1, else the two offsets
  \<open>(int)px\<close> and \<open>(int)py\<close>), \<open>runs\<close> for the runs \<open>(x, y, w)\<close> that \<open>fillTriangle\<close>
  chooses for a triangle.
\<close>

type_synonym triangle = "(int \<times> int) \<times> (int \<times> int) \<times> (int \<times> int)"

fun draw_runs :: "sharpmem \<Rightarrow> (int \<times> int \<times> int) list \<Rightarrow> int \<Rightarrow> sharpmem option" where
  "draw_runs s [] color = Some s"
| "draw_runs s ((x, y, w) # rs) color =
     (case drawFastHLine s x y w color of
        None \<Rightarrow> None
      | Some s' \<Rightarrow> draw_runs s' rs color)"

definition fillTriangle ::
  "(triangle \<Rightarrow> (int \<times> int \<times> int) list) \<Rightarrow> sharpmem \<Rightarrow> triangle \<Rightarrow> int \<Rightarrow> sharpmem option" where
  "fillTriangle runs s t color = draw_runs s (runs t) color"

definition drawFatLine ::
  "(int \<Rightarrow> int \<Rightarrow> int \<Rightarrow> int \<Rightarrow> int \<Rightarrow> (int \<times> int) option) \<Rightarrow>
   (triangle \<Rightarrow> (int \<times> int \<times> int) list) \<Rightarrow>
   sharpmem \<Rightarrow> int \<Rightarrow> int \<Rightarrow> int \<Rightarrow> int \<Rightarrow> int \<Rightarrow> int \<Rightarrow> sharpmem option" where
  "drawFatLine perp runs s x0 y0 x1 y1 strokeWidth color =
     (if strokeWidth < 1 then Some s
      else
        case perp x0 y0 x1 y1 strokeWidth of
          None \<Rightarrow> Some s
        | Some (px, py) \<Rightarrow>
            (case fillTriangle runs s
                    ((x0 + px, y0 + py), (x1 + px, y1 + py), (x1 - px, y1 - py)) color of
               None \<Rightarrow> None
             | Some s' \<Rightarrow>
                 fillTriangle runs s'
                   ((x0 + px, y0 + py), (x1 - px, y1 - py), (x0 - px, y0 - py)) color))"

section \<open>The panel protocol\<close>

text \<open>
  \<open>clearDisplay\<close>: the buffer is set to white, then the two-byte clear command goes out
  between the chip-select edges, inside one transaction.
\<close>

definition clearDisplay ::
  "sharpmem_bits \<Rightarrow> sharpmem \<Rightarrow> (sharpmem \<times> spi_event list) option" where
  "clearDisplay h s =
     (case memset_buf (sharpmem_buffer s) 0 0xff (buffer_bytes s) of
        None \<Rightarrow> None
      | Some buf \<Rightarrow>
          let s1 = s\<lparr>sharpmem_buffer := buf\<rparr>;
              clear_data = [sharpmem_vcom s1 OR SHARPMEM_BIT_CLEAR h, 0x00]
          in Some (TOGGLE_VCOM h s1,
                   [BeginTransaction, DigitalWrite (cs s1) HIGH, Transfer clear_data,
                    DigitalWrite (cs s1) LOW, EndTransaction]))"

text \<open>
  \<open>refresh\<close>: the loop over the lines, with \<open>i\<close> and \<open>currentline\<close> of type \<open>uint16_t\<close>,
  \<open>bytes_per_line\<close> of type \<open>uint8_t\<close> and \<open>totalbytes\<close> of type \<open>uint16_t\<close>. The address
  byte divides by \<open>WIDTH / 8\<close>, which may be zero; \<open>memcpy\<close> reads \<open>bytes_per_line\<close> bytes
  from offset \<open>i\<close>. The loop need not end, so it is a partial function: \<open>None\<close> is a run
  without a defined result.
\<close>

partial_function (option) refresh_loop ::
  "sharpmem \<Rightarrow> int \<Rightarrow> int \<Rightarrow> int \<Rightarrow> spi_event list \<Rightarrow> spi_event list option" where
  "refresh_loop s bytes_per_line totalbytes i sent =
     (if i < totalbytes then
        if WIDTH s sdiv 8 = 0 then None
        else if bytes_per_line > 0 \<and> i + bytes_per_line > int (length (sharpmem_buffer s))
        then None
        else
          let currentline = uint16 (((i + 1) sdiv (WIDTH s sdiv 8)) + 1);
              line = [word_of_int currentline]
                     @ take (nat bytes_per_line) (drop (nat i) (sharpmem_buffer s))
                     @ [0x00]
          in refresh_loop s bytes_per_line totalbytes (uint16 (i + bytes_per_line))
               (sent @ [Transfer line])
      else Some sent)"

declare refresh_loop.simps [code]

definition refresh :: "sharpmem_bits \<Rightarrow> sharpmem \<Rightarrow> (sharpmem \<times> spi_event list) option" where
  "refresh h s =
     (let cmd = [BeginTransaction, DigitalWrite (cs s) HIGH,
                 Transfer [sharpmem_vcom s OR SHARPMEM_BIT_WRITECMD h]];
          s1 = TOGGLE_VCOM h s;
          bytes_per_line = uint8 (WIDTH s1 sdiv 8);
          totalbytes = uint16 ((WIDTH s1 * HEIGHT s1) sdiv 8)
      in
        case refresh_loop s1 bytes_per_line totalbytes 0 cmd of
          None \<Rightarrow> None
        | Some sent \<Rightarrow>
            Some (s1, sent @ [Transfer [0x00], DigitalWrite (cs s1) LOW, EndTransaction]))"

text \<open>
  \<open>begin\<close>: \<open>spi_ok\<close> is what the bus reports, \<open>mem\<close> the block \<open>malloc\<close> returns (its
  contents are whatever the heap holds), \<open>None\<close> when there is no memory. The result is
  the state and the value returned.
\<close>

definition begin_display ::
  "sharpmem_bits \<Rightarrow> bool \<Rightarrow> uint8 list option \<Rightarrow> sharpmem \<Rightarrow> sharpmem \<times> bool" where
  "begin_display h spi_ok mem s =
     (if \<not> spi_ok then (s, False)
      else
        let s1 = s\<lparr>sharpmem_vcom := SHARPMEM_BIT_VCOM h\<rparr> in
        case mem of
          None \<Rightarrow> (s1, False)
        | Some block \<Rightarrow> (setRotation (s1\<lparr>sharpmem_buffer := block\<rparr>) 0, True))"

text \<open>
  A state as \<open>begin\<close> and \<open>setRotation\<close> leave it: positive panel dimensions within
  \<open>int16_t\<close> and the logical dimensions that belong to the rotation (\<open>gfx_ok\<close>), and
  a block of \<open>(WIDTH * HEIGHT) / 8\<close> bytes (\<open>driver_ok\<close>).
\<close>

definition gfx_ok :: "sharpmem \<Rightarrow> bool" where
  "gfx_ok s \<longleftrightarrow>
     0 < WIDTH s \<and> WIDTH s \<le> 32767 \<and> 0 < HEIGHT s \<and> HEIGHT s \<le> 32767 \<and>
     (rotation s = 0 \<or> rotation s = 1 \<or> rotation s = 2 \<or> rotation s = 3) \<and>
     gfx_width s = (if rotation s = 1 \<or> rotation s = 3 then HEIGHT s else WIDTH s) \<and>
     gfx_height s = (if rotation s = 1 \<or> rotation s = 3 then WIDTH s else HEIGHT s)"

definition driver_ok :: "sharpmem \<Rightarrow> bool" where
  "driver_ok s \<longleftrightarrow>
     gfx_ok s \<and> int (length (sharpmem_buffer s)) = (WIDTH s * HEIGHT s) sdiv 8"

text \<open>
  One row record of \<open>refresh\<close>: the address byte computed for row \<open>r\<close>, the
  \<open>bpl\<close> bytes of the row, and the trailer.
\<close>

definition row_record :: "sharpmem \<Rightarrow> int \<Rightarrow> nat \<Rightarrow> spi_event" where
  "row_record s bpl r =
     Transfer ([word_of_int (uint16 ((int r * bpl + 1) sdiv (WIDTH s sdiv 8) + 1))]
               @ take (nat bpl) (drop (nat (int r * bpl)) (sharpmem_buffer s)) @ [0x00])"

text \<open>
  The rotation table of the specification, section 4.2, for a logical point and the
  unrotated panel dimensions \<open>W\<close> and \<open>H\<close>.
\<close>

definition spec_rot :: "int \<Rightarrow> int \<Rightarrow> int \<Rightarrow> int \<times> int \<Rightarrow> int \<times> int" where
  "spec_rot r W H p =
     (case p of (x, y) \<Rightarrow>
        if r = 1 then (W - 1 - y, x)
        else if r = 2 then (W - 1 - x, H - 1 - y)
        else if r = 3 then (y, H - 1 - x)
        else (x, y))"

text \<open>
  Concrete drivers for the examples: command bits 1, 2 and 4, and a panel of the given
  size brought up by \<open>begin\<close> on the given block of memory, then rotated.
\<close>

definition example_bits :: sharpmem_bits where
  "example_bits =
     \<lparr>SHARPMEM_BIT_WRITECMD = 0x01, SHARPMEM_BIT_VCOM = 0x02, SHARPMEM_BIT_CLEAR = 0x04\<rparr>"

definition panel :: "int \<Rightarrow> int \<Rightarrow> int \<Rightarrow> uint8 list \<Rightarrow> sharpmem" where
  "panel w h r block =
     setRotation
       (fst (begin_display example_bits True (Some block)
          \<lparr>WIDTH = w, HEIGHT = h, gfx_width = w, gfx_height = h, rotation = 0,
           sharpmem_buffer = [], sharpmem_vcom = 0, cs = 10\<rparr>)) r"

section \<open>The pixel loop of the specification\<close>

text \<open>
  The loop that the specification compares \<open>drawFastHLine\<close> with: one \<open>drawPixel\<close> call
  for each pixel of the logical run, which is \<open>x, \<dots>, x + w - 1\<close> for a width
  \<open>w \<ge> 0\<close> and \<open>x + w + 1, \<dots>, x\<close> for a negative one. The position of a pixel is
  computed in \<open>int\<close>, and the call \<open>drawPixel(int16_t x, int16_t y, uint16_t color)\<close>
  narrows it to 16 bits; \<open>y\<close> is the \<open>int16_t\<close> argument of the run, handed on as it is.
\<close>

fun pixel_run :: "sharpmem \<Rightarrow> int \<Rightarrow> int \<Rightarrow> nat \<Rightarrow> int \<Rightarrow> sharpmem option" where
  "pixel_run s x y 0 color = Some s"
| "pixel_run s x y (Suc n) color =
     (case drawPixel s (int16 x) y color of
        None \<Rightarrow> None
      | Some s' \<Rightarrow> pixel_run s' (x + 1) y n color)"

definition hline_by_pixels :: "sharpmem \<Rightarrow> int \<Rightarrow> int \<Rightarrow> int \<Rightarrow> int \<Rightarrow> sharpmem option" where
  "hline_by_pixels s x y w color =
     (if w < 0 then pixel_run s (x + w + 1) y (nat (- w)) color
      else pixel_run s x y (nat w) color)"

text \<open>
  \<open>paints rb P v buf buf'\<close>: the buffer \<open>buf'\<close> is \<open>buf\<close> with the bit of every raw pixel
  \<open>(px, py)\<close> in \<open>P\<close> set to \<open>v\<close> and every other bit as it was, bit \<open>px mod 8\<close> of byte
  \<open>px div 8 + py * rb\<close> being the bit of the pixel. It is the common description of
  what the run algorithms and the pixel loop do.
\<close>

definition paints :: "int \<Rightarrow> (int \<Rightarrow> int \<Rightarrow> bool) \<Rightarrow> bool \<Rightarrow> uint8 list \<Rightarrow> uint8 list \<Rightarrow> bool" where
  "paints rb P v buf buf' \<longleftrightarrow>
     length buf' = length buf \<and>
     (\<forall>k < length buf. \<forall>b < 8. bit (buf' ! k) b =
        (if \<exists>px py. P px py \<and> int k = px div 8 + py * rb \<and> int b = px mod 8
         then v else bit (buf ! k) b))"

section \<open>Arithmetic and table facts\<close>

lemma int16_id: "- 32768 \<le> v \<Longrightarrow> v < 32768 \<Longrightarrow> int16 v = v"
  by (simp add: int16_def)

lemma uint16_id: "0 \<le> v \<Longrightarrow> v < 65536 \<Longrightarrow> uint16 v = v"
  by (simp add: uint16_def)

lemma sdiv_nonneg: "0 \<le> a \<Longrightarrow> 0 \<le> b \<Longrightarrow> a sdiv b = a div (b::int)"
  by (cases "a = 0"; cases "b = 0") (simp_all add: signed_divide_int_def)

lemma smod_nonneg: "0 \<le> a \<Longrightarrow> 0 \<le> b \<Longrightarrow> a smod b = a mod (b::int)"
  by (rule smod_mod_positive)

lemma and7_mod: "(x::int) AND 7 = x mod 8"
proof -
  have "x AND mask 3 = x mod 2 ^ 3"
    by (simp only: take_bit_eq_mask [symmetric] take_bit_eq_mod)
  then show ?thesis by (simp add: mask_eq_exp_minus_1)
qed

lemma set_tbl_nth: "i < 8 \<Longrightarrow> set_tbl ! i = 2 ^ i"
proof -
  assume "i < 8"
  then have "i \<in> {0,1,2,3,4,5,6,7}" by auto
  then show ?thesis by (auto simp: set_tbl_def)
qed

lemma clr_tbl_nth: "i < 8 \<Longrightarrow> clr_tbl ! i = NOT (2 ^ i)"
proof -
  assume "i < 8"
  then have "i \<in> {0,1,2,3,4,5,6,7}" by auto
  then show ?thesis by (auto simp: clr_tbl_def)
qed

section \<open>Only the buffer changes\<close>

lemma with_buffer_Some:
  "with_buffer s r = Some s' \<longleftrightarrow> (\<exists>b. r = Some b \<and> s' = s\<lparr>sharpmem_buffer := b\<rparr>)"
  by (cases r) (auto simp: with_buffer_def)

lemma frame_refl: "\<exists>b. s = s\<lparr>sharpmem_buffer := b\<rparr>"
  by (rule exI [of _ "sharpmem_buffer s"]) simp

lemma drawPixel_frame:
  "drawPixel s x y color = Some s' \<Longrightarrow> \<exists>b. s' = s\<lparr>sharpmem_buffer := b\<rparr>"
  unfolding drawPixel_def Let_def
  by (auto simp: with_buffer_Some split: if_splits prod.splits intro: exI [of _ "sharpmem_buffer s"])

lemma drawFastRawVLine_frame:
  "drawFastRawVLine s x y h color = Some s' \<Longrightarrow> \<exists>b. s' = s\<lparr>sharpmem_buffer := b\<rparr>"
  unfolding drawFastRawVLine_def Let_def
  by (auto simp: with_buffer_Some split: if_splits)

lemma drawFastRawHLine_frame:
  "drawFastRawHLine s x y w color = Some s' \<Longrightarrow> \<exists>b. s' = s\<lparr>sharpmem_buffer := b\<rparr>"
  unfolding drawFastRawHLine_def Let_def
  by (auto simp: with_buffer_Some frame_refl split: if_splits option.splits prod.splits)

lemma drawFastHLine_frame:
  "drawFastHLine s x y w color = Some s' \<Longrightarrow> \<exists>b. s' = s\<lparr>sharpmem_buffer := b\<rparr>"
  unfolding drawFastHLine_def Let_def
  by (auto split: if_splits prod.splits dest: drawFastRawHLine_frame drawFastRawVLine_frame
        intro: exI [of _ "sharpmem_buffer s"])

lemma frame_trans:
  "s1 = s\<lparr>sharpmem_buffer := b\<rparr> \<Longrightarrow> s2 = s1\<lparr>sharpmem_buffer := c\<rparr> \<Longrightarrow> s2 = s\<lparr>sharpmem_buffer := c\<rparr>"
  by simp

lemmas fillRect_loop_induct =
  fillRect_loop.raw_induct [where xa = "(((((s, i), bound), x), w), color)" for s i bound x w color,
    simplified]

lemma fillRect_loop_frame:
  assumes "fillRect_loop s i bound x w color = Some s'"
  shows "\<exists>b. s' = s\<lparr>sharpmem_buffer := b\<rparr>"
proof (rule fillRect_loop_induct
    [where P = "\<lambda>s i bound x w color s'. \<exists>b. s' = s\<lparr>sharpmem_buffer := b\<rparr>", OF _ assms])
  fix loop s i bound x w color s'
  assume IH: "\<And>s i bound x w color s'. loop s i bound x w color = Some s'
                \<Longrightarrow> \<exists>b. s' = s\<lparr>sharpmem_buffer := b\<rparr>"
    and body: "(if i < bound then
                  (case drawFastHLine s x i w color of None \<Rightarrow> None
                   | Some s' \<Rightarrow> loop s' (int16 (i + 1)) bound x w color)
                else Some s) = Some s'"
  show "\<exists>b. s' = s\<lparr>sharpmem_buffer := b\<rparr>"
  proof (cases "i < bound")
    case False
    with body have "s' = s" by simp
    then show ?thesis by (simp add: frame_refl)
  next
    case True
    with body obtain s1 where a: "drawFastHLine s x i w color = Some s1"
      and b: "loop s1 (int16 (i + 1)) bound x w color = Some s'"
      by (auto split: option.splits)
    from drawFastHLine_frame [OF a] obtain b1 where "s1 = s\<lparr>sharpmem_buffer := b1\<rparr>" ..
    moreover from IH [OF b] obtain b2 where "s' = s1\<lparr>sharpmem_buffer := b2\<rparr>" ..
    ultimately have "s' = s\<lparr>sharpmem_buffer := b2\<rparr>" by simp
    then show ?thesis ..
  qed
qed

lemma draw_runs_frame:
  "draw_runs s rs color = Some s' \<Longrightarrow> \<exists>b. s' = s\<lparr>sharpmem_buffer := b\<rparr>"
proof (induction rs arbitrary: s)
  case Nil
  then show ?case by (auto intro: exI [of _ "sharpmem_buffer s"])
next
  case (Cons r rs)
  obtain x y w where r: "r = (x, y, w)" by (cases r) auto
  from Cons.prems r obtain s1 where a: "drawFastHLine s x y w color = Some s1"
      and b: "draw_runs s1 rs color = Some s'"
    by (auto split: option.splits)
  from drawFastHLine_frame [OF a] obtain b1 where "s1 = s\<lparr>sharpmem_buffer := b1\<rparr>" ..
  moreover from Cons.IH [OF b] obtain b2 where "s' = s1\<lparr>sharpmem_buffer := b2\<rparr>" ..
  ultimately have "s' = s\<lparr>sharpmem_buffer := b2\<rparr>" by simp
  then show ?case ..
qed

lemma drawFatLine_frame:
  "drawFatLine perp runs s x0 y0 x1 y1 sw color = Some s' \<Longrightarrow> \<exists>b. s' = s\<lparr>sharpmem_buffer := b\<rparr>"
proof -
  assume a: "drawFatLine perp runs s x0 y0 x1 y1 sw color = Some s'"
  show ?thesis
  proof (cases "sw < 1 \<or> perp x0 y0 x1 y1 sw = None")
    case True
    with a have "s' = s" by (auto simp: drawFatLine_def split: if_splits)
    then show ?thesis by (auto intro: exI [of _ "sharpmem_buffer s"])
  next
    case False
    then obtain px py where p: "perp x0 y0 x1 y1 sw = Some (px, py)" and sw: "\<not> sw < 1" by auto
    from a p sw obtain s1 where
      t1: "draw_runs s (runs ((x0 + px, y0 + py), (x1 + px, y1 + py), (x1 - px, y1 - py))) color = Some s1"
      and t2: "draw_runs s1 (runs ((x0 + px, y0 + py), (x1 - px, y1 - py), (x0 - px, y0 - py))) color = Some s'"
      by (auto simp: drawFatLine_def fillTriangle_def split: option.splits)
    from draw_runs_frame [OF t1] obtain b1 where "s1 = s\<lparr>sharpmem_buffer := b1\<rparr>" ..
    moreover from draw_runs_frame [OF t2] obtain b2 where "s' = s1\<lparr>sharpmem_buffer := b2\<rparr>" ..
    ultimately have "s' = s\<lparr>sharpmem_buffer := b2\<rparr>" by simp
    then show ?thesis ..
  qed
qed

lemma clearDisplayBuffer_frame:
  "clearDisplayBuffer s = Some s' \<Longrightarrow> \<exists>b. s' = s\<lparr>sharpmem_buffer := b\<rparr>"
  by (auto simp: clearDisplayBuffer_def with_buffer_Some)

lemma setBitmap_frame:
  "setBitmap s bitmap = Some s' \<Longrightarrow> \<exists>b. s' = s\<lparr>sharpmem_buffer := b\<rparr>"
  by (auto simp: setBitmap_def Let_def split: if_splits)

section \<open>The two commands\<close>

lemma buffer_bytes_ok: "driver_ok s \<Longrightarrow> buffer_bytes s = int (length (sharpmem_buffer s))"
proof -
  assume ok: "driver_ok s"
  then have len: "int (length (sharpmem_buffer s)) = (WIDTH s * HEIGHT s) sdiv 8"
    by (simp add: driver_ok_def)
  from ok have "0 < WIDTH s" "WIDTH s \<le> 32767" "0 < HEIGHT s" "HEIGHT s \<le> 32767"
    by (simp_all add: driver_ok_def gfx_ok_def)
  then have "WIDTH s * HEIGHT s \<le> 32767 * 32767" "0 \<le> WIDTH s * HEIGHT s"
    using mult_mono [of "WIDTH s" 32767 "HEIGHT s" 32767] by simp_all
  then have "0 \<le> (WIDTH s * HEIGHT s) sdiv 8" "(WIDTH s * HEIGHT s) sdiv 8 < 4294967296"
    by (simp_all add: sdiv_nonneg)
  then show ?thesis by (simp add: buffer_bytes_def size_t_def len)
qed

lemma memset_all: "memset_buf buf 0 v (int (length buf)) = Some (replicate (length buf) v)"
  by (simp add: memset_buf_def)

lemma clearDisplay_ok:
  "driver_ok s \<Longrightarrow>
   clearDisplay h s =
     Some (s\<lparr>sharpmem_buffer := replicate (length (sharpmem_buffer s)) 0xFF,
             sharpmem_vcom := (if sharpmem_vcom s \<noteq> 0 then 0 else SHARPMEM_BIT_VCOM h)\<rparr>,
           [BeginTransaction, DigitalWrite (cs s) HIGH,
            Transfer [sharpmem_vcom s OR SHARPMEM_BIT_CLEAR h, 0],
            DigitalWrite (cs s) LOW, EndTransaction])"
  by (simp add: clearDisplay_def buffer_bytes_ok memset_all TOGGLE_VCOM_def Let_def)

lemma clearDisplay_vcom:
  "clearDisplay h s = Some (s', ev) \<Longrightarrow>
   sharpmem_vcom s' = (if sharpmem_vcom s \<noteq> 0 then 0 else SHARPMEM_BIT_VCOM h)"
  by (auto simp: clearDisplay_def TOGGLE_VCOM_def Let_def split: option.splits)

lemma refresh_state:
  "refresh h s = Some (s', ev) \<Longrightarrow>
   s' = s\<lparr>sharpmem_vcom := (if sharpmem_vcom s \<noteq> 0 then 0 else SHARPMEM_BIT_VCOM h)\<rparr>"
  by (auto simp: refresh_def TOGGLE_VCOM_def Let_def split: option.splits)

lemma refresh_loop_rows:
  assumes "0 < bpl" "WIDTH s sdiv 8 \<noteq> 0" "int n * bpl \<le> 65535"
    "int n * bpl \<le> int (length (sharpmem_buffer s))" "k \<le> n"
  shows "refresh_loop s bpl (int n * bpl) (int k * bpl) sent =
           Some (sent @ map (row_record s bpl) [k..<n])"
  using assms(5)
proof (induction "n - k" arbitrary: k sent)
  case 0
  then have "k = n" by simp
  then show ?case by (subst refresh_loop.simps) simp
next
  case (Suc d)
  then have kn: "k < n" and d: "d = n - Suc k" and le: "Suc k \<le> n" by simp_all
  from kn assms(1) have lt: "int k * bpl < int n * bpl" by simp
  from le assms(1) have next_le: "int (Suc k) * bpl \<le> int n * bpl"
    by (intro mult_right_mono) simp_all
  have step: "int k * bpl + bpl = int (Suc k) * bpl" by (simp add: algebra_simps)
  have "0 \<le> int (Suc k) * bpl" using assms(1) by simp
  moreover have "int (Suc k) * bpl < 65536" using next_le assms(3) by linarith
  ultimately have u: "uint16 (int (Suc k) * bpl) = int (Suc k) * bpl"
    by (rule uint16_id)
  have inb: "\<not> int (length (sharpmem_buffer s)) < int k * bpl + bpl"
    using next_le assms(4) step by linarith
  have "refresh_loop s bpl (int n * bpl) (int k * bpl) sent =
        refresh_loop s bpl (int n * bpl) (int (Suc k) * bpl) (sent @ [row_record s bpl k])"
    apply (subst refresh_loop.simps)
    using lt assms(2) inb u step
    by (simp add: Let_def row_record_def del: of_nat_Suc)
  also have "\<dots> = Some ((sent @ [row_record s bpl k]) @ map (row_record s bpl) [Suc k..<n])"
    by (rule Suc.hyps(1) [OF d le])
  also have "\<dots> = Some (sent @ map (row_record s bpl) [k..<n])"
    using kn by (simp add: upt_conv_Cons)
  finally show ?case .
qed

lemma refresh_total:
  assumes ok: "driver_ok s" and w8: "WIDTH s mod 8 = 0" and w: "WIDTH s < 2048"
    and sz: "WIDTH s * HEIGHT s < 524288"
  shows "refresh h s =
     Some (s\<lparr>sharpmem_vcom := (if sharpmem_vcom s \<noteq> 0 then 0 else SHARPMEM_BIT_VCOM h)\<rparr>,
           [BeginTransaction, DigitalWrite (cs s) HIGH,
            Transfer [sharpmem_vcom s OR SHARPMEM_BIT_WRITECMD h]]
           @ map (row_record s (WIDTH s div 8)) [0..<nat (HEIGHT s)]
           @ [Transfer [0x00], DigitalWrite (cs s) LOW, EndTransaction])"
proof -
  let ?s1 = "TOGGLE_VCOM h s"
  let ?bpl = "WIDTH s div 8"
  from ok have pos: "0 < WIDTH s" "0 < HEIGHT s"
    and len: "int (length (sharpmem_buffer s)) = (WIDTH s * HEIGHT s) sdiv 8"
    by (simp_all add: driver_ok_def gfx_ok_def)
  from pos w8 have w_ge: "8 \<le> WIDTH s" by presburger
  then have bpl_pos: "0 < ?bpl" by simp
  have sd: "WIDTH s sdiv 8 = ?bpl" using pos by (simp add: sdiv_nonneg)
  have bpl8: "uint8 (WIDTH s sdiv 8) = ?bpl" using w pos by (simp add: sd uint8_def)
  have prod: "WIDTH s * HEIGHT s = 8 * (?bpl * HEIGHT s)" using w8 by auto
  have tot: "(WIDTH s * HEIGHT s) sdiv 8 = int (nat (HEIGHT s)) * ?bpl"
    using pos by (subst prod) (simp add: sdiv_nonneg)
  have tot_lt: "int (nat (HEIGHT s)) * ?bpl \<le> 65535"
    using sz pos tot by (simp add: sdiv_nonneg)
  have tot16: "uint16 ((WIDTH s * HEIGHT s) sdiv 8) = int (nat (HEIGHT s)) * ?bpl"
    using tot_lt pos bpl_pos by (simp add: tot uint16_def)
  have fields: "WIDTH ?s1 = WIDTH s" "HEIGHT ?s1 = HEIGHT s" "cs ?s1 = cs s"
    "sharpmem_buffer ?s1 = sharpmem_buffer s"
    by (simp_all add: TOGGLE_VCOM_def)
  have rr: "row_record ?s1 ?bpl = row_record s ?bpl"
    by (rule ext) (simp add: row_record_def fields)
  have loop: "refresh_loop ?s1 ?bpl (int (nat (HEIGHT s)) * ?bpl) (int 0 * ?bpl) sent =
        Some (sent @ map (row_record ?s1 ?bpl) [0..<nat (HEIGHT s)])" for sent
    using bpl_pos sd tot_lt len tot
    by (intro refresh_loop_rows) (simp_all add: fields)
  show ?thesis
    unfolding refresh_def Let_def
    using loop by (simp add: fields bpl8 tot16 rr) (simp add: TOGGLE_VCOM_def)
qed

section \<open>Example panels\<close>

lemma panel_simps:
  "WIDTH (panel w h r b) = w" "HEIGHT (panel w h r b) = h"
  "sharpmem_buffer (panel w h r b) = b" "sharpmem_vcom (panel w h r b) = 0x02"
  "cs (panel w h r b) = 10"
  by (simp_all add: panel_def begin_display_def setRotation_def example_bits_def Let_def)

lemma panel_rot:
  "rotation (panel w h 0 b) = 0" "gfx_width (panel w h 0 b) = w" "gfx_height (panel w h 0 b) = h"
  "rotation (panel w h 1 b) = 1" "gfx_width (panel w h 1 b) = h" "gfx_height (panel w h 1 b) = w"
  "rotation (panel w h 2 b) = 2" "gfx_width (panel w h 2 b) = w" "gfx_height (panel w h 2 b) = h"
  "rotation (panel w h 3 b) = 3" "gfx_width (panel w h 3 b) = h" "gfx_height (panel w h 3 b) = w"
  by (simp_all add: panel_def begin_display_def setRotation_def example_bits_def Let_def)

lemma uint16_neg: "- 65536 \<le> v \<Longrightarrow> v < 0 \<Longrightarrow> uint16 v = v + 65536"
proof -
  assume a: "- 65536 \<le> v" "v < 0"
  have "v mod 65536 = (v + 65536) mod 65536" by simp
  also have "\<dots> = v + 65536" using a by (intro mod_pos_pos_trivial) simp_all
  finally show ?thesis by (simp add: uint16_def)
qed

lemma panel_ok:
  "0 < w \<Longrightarrow> w \<le> 32767 \<Longrightarrow> 0 < h \<Longrightarrow> h \<le> 32767 \<Longrightarrow> r \<in> {0, 1, 2, 3} \<Longrightarrow>
     int (length b) = (w * h) div 8 \<Longrightarrow> driver_ok (panel w h r b)"
  by (auto simp: driver_ok_def gfx_ok_def panel_simps panel_rot sdiv_nonneg)

lemma defined_result:
  "f \<noteq> None \<Longrightarrow> (\<forall>r. f = Some r \<longrightarrow> P r) \<Longrightarrow> \<exists>r. f = Some r \<and> P r"
  by auto

section \<open>Claims\<close>

text \<open>
  Claim C7. For a point outside the logical canvas, \<open>drawPixel\<close> returns the driver
  state as it was, whatever the colour, and \<open>getPixel\<close> returns 0: both for
  arguments that are already \<open>uint16_t\<close> values and for \<open>int16_t\<close> arguments,
  which the call converts to \<open>uint16_t\<close>.
\<close>

theorem outside_canvas_ignored:
  assumes "x < 0 \<or> gfx_width s \<le> x \<or> y < 0 \<or> gfx_height s \<le> y"
  shows "drawPixel s x y color = Some s \<and>
         (0 \<le> x \<and> 0 \<le> y \<longrightarrow> getPixel s x y = Some 0) \<and>
         (gfx_width s \<le> 32767 \<and> gfx_height s \<le> 32767 \<and>
          - 32768 \<le> x \<and> x \<le> 32767 \<and> - 32768 \<le> y \<and> y \<le> 32767
            \<longrightarrow> getPixel s (uint16 x) (uint16 y) = Some 0)"
proof (intro conjI impI)
  show "drawPixel s x y color = Some s"
    using assms by (auto simp: drawPixel_def)
  show "getPixel s x y = Some 0" if "0 \<le> x \<and> 0 \<le> y"
    using assms that by (auto simp: getPixel_def)
  show "getPixel s (uint16 x) (uint16 y) = Some 0"
    if r: "gfx_width s \<le> 32767 \<and> gfx_height s \<le> 32767 \<and>
          - 32768 \<le> x \<and> x \<le> 32767 \<and> - 32768 \<le> y \<and> y \<le> 32767"
  proof -
    have ux: "uint16 x = (if x < 0 then x + 65536 else x)"
      using r by (simp add: uint16_neg uint16_id)
    have uy: "uint16 y = (if y < 0 then y + 65536 else y)"
      using r by (simp add: uint16_neg uint16_id)
    have "gfx_width s \<le> uint16 x \<or> gfx_height s \<le> uint16 y"
      using assms r unfolding ux uy by auto
    then show ?thesis by (auto simp: getPixel_def)
  qed
qed

theorem outside_canvas_ignored_witness:
  "drawPixel (panel 16 8 1 (replicate 16 0)) 8 0 1 = Some (panel 16 8 1 (replicate 16 0)) \<and>
   getPixel (panel 16 8 1 (replicate 16 0)) 8 0 = Some 0 \<and>
   getPixel (panel 16 8 1 (replicate 16 0)) (uint16 (- 1)) (uint16 3) = Some 0"
  using outside_canvas_ignored [of 8 "panel 16 8 1 (replicate 16 0)" 0 1]
    outside_canvas_ignored [of "- 1" "panel 16 8 1 (replicate 16 0)" 3 1]
  by (simp add: panel_rot)

text \<open>
  Claim C8. On a driver as \<open>begin\<close> leaves it, \<open>clearDisplay\<close> opens the transaction,
  raises chip-select, transfers exactly the two bytes \<open>vcom | CLEAR\<close> and \<open>0x00\<close>,
  lowers chip-select and closes the transaction, and every byte of the frame buffer
  is \<open>0xFF\<close> afterwards.
\<close>

theorem clearDisplay_command:
  assumes "driver_ok s"
  shows "\<exists>s' ev. clearDisplay h s = Some (s', ev) \<and>
           ev = [BeginTransaction, DigitalWrite (cs s) HIGH,
                 Transfer [sharpmem_vcom s OR SHARPMEM_BIT_CLEAR h, 0x00],
                 DigitalWrite (cs s) LOW, EndTransaction] \<and>
           wire_bytes ev = [sharpmem_vcom s OR SHARPMEM_BIT_CLEAR h, 0x00] \<and>
           sharpmem_buffer s' = replicate (length (sharpmem_buffer s)) 0xFF"
  by (simp add: clearDisplay_ok [OF assms])

theorem clearDisplay_command_witness:
  "\<exists>s'. clearDisplay example_bits (panel 16 2 0 [0, 1, 2, 3]) =
          Some (s', [BeginTransaction, DigitalWrite 10 HIGH, Transfer [0x06, 0x00],
                     DigitalWrite 10 LOW, EndTransaction]) \<and>
        sharpmem_buffer s' = [0xFF, 0xFF, 0xFF, 0xFF]"
proof -
  have ok: "driver_ok (panel 16 2 0 [0, 1, 2, 3])"
    by (rule panel_ok) simp_all
  from clearDisplay_command [OF ok, of example_bits] show ?thesis
    by (auto simp: panel_simps example_bits_def)
qed

text \<open>
  Claim C10. Whenever \<open>refresh\<close> returns, the frame buffer is the one before the call
  and the driver state differs from the one before in \<open>sharpmem_vcom\<close> alone; and it
  does return on every panel whose width is a multiple of 8 below 2048 with fewer than
  65536 bytes of pixels.
\<close>

theorem refresh_keeps_buffer:
  "(\<forall>s' ev. refresh h s = Some (s', ev) \<longrightarrow>
      sharpmem_buffer s' = sharpmem_buffer s \<and>
      s' = s\<lparr>sharpmem_vcom := (if sharpmem_vcom s \<noteq> 0 then 0x00 else SHARPMEM_BIT_VCOM h)\<rparr>) \<and>
   (driver_ok s \<and> WIDTH s mod 8 = 0 \<and> WIDTH s < 2048 \<and> WIDTH s * HEIGHT s < 524288
      \<longrightarrow> refresh h s \<noteq> None)"
proof (intro conjI allI impI)
  fix s' ev assume r: "refresh h s = Some (s', ev)"
  from refresh_state [OF r]
  show "s' = s\<lparr>sharpmem_vcom := (if sharpmem_vcom s \<noteq> 0 then 0x00 else SHARPMEM_BIT_VCOM h)\<rparr>" .
  then show "sharpmem_buffer s' = sharpmem_buffer s" by simp
next
  assume "driver_ok s \<and> WIDTH s mod 8 = 0 \<and> WIDTH s < 2048 \<and> WIDTH s * HEIGHT s < 524288"
  then show "refresh h s \<noteq> None" by (simp add: refresh_total)
qed

theorem refresh_keeps_buffer_witness:
  "\<exists>s' ev. refresh example_bits (panel 16 2 0 [0, 1, 2, 3]) = Some (s', ev) \<and>
     sharpmem_buffer s' = [0, 1, 2, 3] \<and> sharpmem_vcom s' = 0 \<and>
     s' = (panel 16 2 0 [0, 1, 2, 3])\<lparr>sharpmem_vcom := 0\<rparr>"
proof -
  have ok: "driver_ok (panel 16 2 0 [0, 1, 2, 3])"
    by (rule panel_ok) simp_all
  from refresh_keeps_buffer [of example_bits "panel 16 2 0 [0, 1, 2, 3]"] ok
  show ?thesis by (auto simp: panel_simps)
qed

text \<open>
  Claim C4. With a non-zero polarity bit, a call of \<open>clearDisplay\<close> or of \<open>refresh\<close>
  leaves \<open>sharpmem_vcom\<close> toggled once, so different from before, however many rows
  the panel has; both calls return on the panels named in the statement; and none of
  \<open>drawPixel\<close>, \<open>drawFastHLine\<close>, \<open>drawFastRawHLine\<close>, \<open>drawFastRawVLine\<close>,
  \<open>fillRect\<close>, \<open>drawFatLine\<close>, \<open>clearDisplayBuffer\<close> and \<open>setBitmap\<close> changes
  \<open>sharpmem_vcom\<close>.
\<close>

theorem vcom_only_toggled_by_commands:
  assumes "SHARPMEM_BIT_VCOM h \<noteq> 0"
  shows
  "(\<forall>s' ev. clearDisplay h s = Some (s', ev) \<longrightarrow>
      sharpmem_vcom s' = (if sharpmem_vcom s \<noteq> 0 then 0x00 else SHARPMEM_BIT_VCOM h) \<and>
      sharpmem_vcom s' \<noteq> sharpmem_vcom s) \<and>
   (\<forall>s' ev. refresh h s = Some (s', ev) \<longrightarrow>
      sharpmem_vcom s' = (if sharpmem_vcom s \<noteq> 0 then 0x00 else SHARPMEM_BIT_VCOM h) \<and>
      sharpmem_vcom s' \<noteq> sharpmem_vcom s) \<and>
   (driver_ok s \<longrightarrow> clearDisplay h s \<noteq> None) \<and>
   (driver_ok s \<and> WIDTH s mod 8 = 0 \<and> WIDTH s < 2048 \<and> WIDTH s * HEIGHT s < 524288
      \<longrightarrow> refresh h s \<noteq> None) \<and>
   (\<forall>s'. drawPixel s x y color = Some s' \<longrightarrow> sharpmem_vcom s' = sharpmem_vcom s) \<and>
   (\<forall>s'. drawFastHLine s x y w color = Some s' \<longrightarrow> sharpmem_vcom s' = sharpmem_vcom s) \<and>
   (\<forall>s'. drawFastRawHLine s x y w color = Some s' \<longrightarrow> sharpmem_vcom s' = sharpmem_vcom s) \<and>
   (\<forall>s'. drawFastRawVLine s x y w color = Some s' \<longrightarrow> sharpmem_vcom s' = sharpmem_vcom s) \<and>
   (\<forall>s'. fillRect s x y w ht color = Some s' \<longrightarrow> sharpmem_vcom s' = sharpmem_vcom s) \<and>
   (\<forall>s'. drawFatLine perp runs s x y x1 y1 w color = Some s'
      \<longrightarrow> sharpmem_vcom s' = sharpmem_vcom s) \<and>
   (\<forall>s'. clearDisplayBuffer s = Some s' \<longrightarrow> sharpmem_vcom s' = sharpmem_vcom s) \<and>
   (\<forall>s'. setBitmap s bitmap = Some s' \<longrightarrow> sharpmem_vcom s' = sharpmem_vcom s)"
proof -
  have fr: "sharpmem_vcom s' = sharpmem_vcom s" if "\<exists>b. s' = s\<lparr>sharpmem_buffer := b\<rparr>" for s'
    using that by auto
  have c: "sharpmem_vcom s' = (if sharpmem_vcom s \<noteq> 0 then 0x00 else SHARPMEM_BIT_VCOM h) \<and>
      sharpmem_vcom s' \<noteq> sharpmem_vcom s" if "clearDisplay h s = Some (s', ev)" for s' ev
    using clearDisplay_vcom [OF that] assms by auto
  have r: "sharpmem_vcom s' = (if sharpmem_vcom s \<noteq> 0 then 0x00 else SHARPMEM_BIT_VCOM h) \<and>
      sharpmem_vcom s' \<noteq> sharpmem_vcom s" if "refresh h s = Some (s', ev)" for s' ev
    using refresh_state [OF that] assms by auto
  have ct: "clearDisplay h s \<noteq> None" if "driver_ok s"
    using clearDisplay_ok [OF that, of h] by simp
  have rt: "refresh h s \<noteq> None"
    if "driver_ok s \<and> WIDTH s mod 8 = 0 \<and> WIDTH s < 2048 \<and> WIDTH s * HEIGHT s < 524288"
    using that by (simp add: refresh_total)
  have p1: "\<forall>s'. drawPixel s x y color = Some s' \<longrightarrow> sharpmem_vcom s' = sharpmem_vcom s"
    by (intro allI impI fr drawPixel_frame)
  have p2: "\<forall>s'. drawFastHLine s x y w color = Some s' \<longrightarrow> sharpmem_vcom s' = sharpmem_vcom s"
    by (intro allI impI fr drawFastHLine_frame)
  have p3: "\<forall>s'. drawFastRawHLine s x y w color = Some s' \<longrightarrow> sharpmem_vcom s' = sharpmem_vcom s"
    by (intro allI impI fr drawFastRawHLine_frame)
  have p4: "\<forall>s'. drawFastRawVLine s x y w color = Some s' \<longrightarrow> sharpmem_vcom s' = sharpmem_vcom s"
    by (intro allI impI fr drawFastRawVLine_frame)
  have p5: "\<forall>s'. fillRect s x y w ht color = Some s' \<longrightarrow> sharpmem_vcom s' = sharpmem_vcom s"
    unfolding fillRect_def by (intro allI impI fr fillRect_loop_frame)
  have p6: "\<forall>s'. drawFatLine perp runs s x y x1 y1 w color = Some s'
      \<longrightarrow> sharpmem_vcom s' = sharpmem_vcom s"
    by (intro allI impI fr drawFatLine_frame)
  have p7: "\<forall>s'. clearDisplayBuffer s = Some s' \<longrightarrow> sharpmem_vcom s' = sharpmem_vcom s"
    by (intro allI impI fr clearDisplayBuffer_frame)
  have p8: "\<forall>s'. setBitmap s bitmap = Some s' \<longrightarrow> sharpmem_vcom s' = sharpmem_vcom s"
    by (intro allI impI fr setBitmap_frame)
  have c': "\<forall>s' ev. clearDisplay h s = Some (s', ev) \<longrightarrow>
      sharpmem_vcom s' = (if sharpmem_vcom s \<noteq> 0 then 0x00 else SHARPMEM_BIT_VCOM h) \<and>
      sharpmem_vcom s' \<noteq> sharpmem_vcom s"
    by (intro allI impI c)
  have r': "\<forall>s' ev. refresh h s = Some (s', ev) \<longrightarrow>
      sharpmem_vcom s' = (if sharpmem_vcom s \<noteq> 0 then 0x00 else SHARPMEM_BIT_VCOM h) \<and>
      sharpmem_vcom s' \<noteq> sharpmem_vcom s"
    by (intro allI impI r)
  from c' r' ct rt p1 p2 p3 p4 p5 p6 p7 p8 show ?thesis
    by (intro conjI impI) assumption+
qed



theorem vcom_only_toggled_by_commands_witness:
  "(\<exists>r. clearDisplay example_bits (panel 16 16 0 (replicate 32 0)) = Some r \<and>
      sharpmem_vcom (fst r) = 0 \<and> sharpmem_vcom (panel 16 16 0 (replicate 32 0)) = 2) \<and>
   (\<exists>r. refresh example_bits (panel 16 16 0 (replicate 32 0)) = Some r \<and>
      sharpmem_vcom (fst r) = 0) \<and>
   (\<exists>s'. drawPixel (panel 16 16 0 (replicate 32 0)) 3 1 1 = Some s' \<and> sharpmem_vcom s' = 2) \<and>
   (\<exists>s'. drawFastHLine (panel 16 16 0 (replicate 32 0)) 3 1 9 1 = Some s' \<and> sharpmem_vcom s' = 2) \<and>
   (\<exists>s'. drawFastRawHLine (panel 16 16 0 (replicate 32 0)) 3 1 9 1 = Some s' \<and> sharpmem_vcom s' = 2) \<and>
   (\<exists>s'. drawFastRawVLine (panel 16 16 0 (replicate 32 0)) 3 1 9 1 = Some s' \<and> sharpmem_vcom s' = 2) \<and>
   (\<exists>s'. fillRect (panel 16 16 0 (replicate 32 0)) 3 1 9 2 1 = Some s' \<and> sharpmem_vcom s' = 2) \<and>
   (\<exists>s'. drawFatLine (\<lambda>x0 y0 x1 y1 sw. Some (0, 1)) (\<lambda>t. [(3, 0, 9), (3, 1, 9)])
           (panel 16 16 0 (replicate 32 0)) 3 1 12 1 9 1 = Some s' \<and> sharpmem_vcom s' = 2) \<and>
   (\<exists>s'. clearDisplayBuffer (panel 16 16 0 (replicate 32 0)) = Some s' \<and> sharpmem_vcom s' = 2) \<and>
   (\<exists>s'. setBitmap (panel 16 16 0 (replicate 32 0)) (replicate 32 9) = Some s' \<and> sharpmem_vcom s' = 2)"
proof -
  let ?p = "panel 16 16 0 (replicate 32 0)"
  have ok: "driver_ok ?p" by (rule panel_ok) simp_all
  have nz: "SHARPMEM_BIT_VCOM example_bits \<noteq> 0" by (simp add: example_bits_def)
  have v: "sharpmem_vcom ?p = 2" by (simp add: panel_simps)
  have b: "SHARPMEM_BIT_VCOM example_bits = 2" by (simp add: example_bits_def)
  have w: "WIDTH ?p mod 8 = 0 \<and> WIDTH ?p < 2048 \<and> WIDTH ?p * HEIGHT ?p < 524288"
    by (simp add: panel_simps)
  note T = vcom_only_toggled_by_commands [OF nz, of ?p 3 1 1 9 2
      "\<lambda>x0 y0 x1 y1 sw. Some (0, 1)" "\<lambda>t. [(3, 0, 9), (3, 1, 9)]" 12 1 "replicate 32 9"]
  have e0: "clearDisplay example_bits ?p \<noteq> None" using T ok by blast
  have e0': "refresh example_bits ?p \<noteq> None" using T ok w by blast
  have e1: "drawPixel ?p 3 1 1 \<noteq> None" by code_simp
  have e2: "drawFastHLine ?p 3 1 9 1 \<noteq> None" by code_simp
  have e3: "drawFastRawHLine ?p 3 1 9 1 \<noteq> None" by code_simp
  have e4: "drawFastRawVLine ?p 3 1 9 1 \<noteq> None" by code_simp
  have e5: "fillRect ?p 3 1 9 2 1 \<noteq> None" by code_simp
  have e6: "drawFatLine (\<lambda>x0 y0 x1 y1 sw. Some (0, 1)) (\<lambda>t. [(3, 0, 9), (3, 1, 9)])
           ?p 3 1 12 1 9 1 \<noteq> None" by code_simp
  have e7: "clearDisplayBuffer ?p \<noteq> None" by code_simp
  have e8: "setBitmap ?p (replicate 32 9) \<noteq> None" by code_simp
  have c0: "\<exists>r. clearDisplay example_bits ?p = Some r \<and> sharpmem_vcom (fst r) = 0 \<and> sharpmem_vcom ?p = 2"
    by (rule defined_result [OF e0]) (use T v in auto)
  have c0': "\<exists>r. refresh example_bits ?p = Some r \<and> sharpmem_vcom (fst r) = 0"
    by (rule defined_result [OF e0']) (use T v in auto)
  have c1: "\<exists>s'. drawPixel ?p 3 1 1 = Some s' \<and> sharpmem_vcom s' = 2"
    by (rule defined_result [OF e1]) (use T v in simp)
  have c2: "\<exists>s'. drawFastHLine ?p 3 1 9 1 = Some s' \<and> sharpmem_vcom s' = 2"
    by (rule defined_result [OF e2]) (use T v in simp)
  have c3: "\<exists>s'. drawFastRawHLine ?p 3 1 9 1 = Some s' \<and> sharpmem_vcom s' = 2"
    by (rule defined_result [OF e3]) (use T v in simp)
  have c4: "\<exists>s'. drawFastRawVLine ?p 3 1 9 1 = Some s' \<and> sharpmem_vcom s' = 2"
    by (rule defined_result [OF e4]) (use T v in simp)
  have c5: "\<exists>s'. fillRect ?p 3 1 9 2 1 = Some s' \<and> sharpmem_vcom s' = 2"
    by (rule defined_result [OF e5]) (use T v in simp)
  have c6: "\<exists>s'. drawFatLine (\<lambda>x0 y0 x1 y1 sw. Some (0, 1)) (\<lambda>t. [(3, 0, 9), (3, 1, 9)])
           ?p 3 1 12 1 9 1 = Some s' \<and> sharpmem_vcom s' = 2"
    by (rule defined_result [OF e6]) (use T v in simp)
  have c7: "\<exists>s'. clearDisplayBuffer ?p = Some s' \<and> sharpmem_vcom s' = 2"
    by (rule defined_result [OF e7]) (use T v in simp)
  have c8: "\<exists>s'. setBitmap ?p (replicate 32 9) = Some s' \<and> sharpmem_vcom s' = 2"
    by (rule defined_result [OF e8]) (use T v in simp)
  from c0 c0' c1 c2 c3 c4 c5 c6 c7 c8 show ?thesis
    by (intro conjI) assumption+
qed

text \<open>
  Claim C1, on a panel 12 pixels wide and 4 high with an all-black buffer: \<open>drawPixel\<close>
  with colour 1 at (0, 1) sets bit 0 of byte 2, the byte at one row stride of 2, and
  \<open>getPixel\<close> at (0, 1) then reads bit 0 of byte \<open>(1 * 12 + 0) / 8 = 1\<close> and returns 0.
\<close>

theorem roundtrip_width_12:
  "driver_ok (panel 12 4 0 (replicate 6 0)) \<and>
   map_option sharpmem_buffer (drawPixel (panel 12 4 0 (replicate 6 0)) 0 1 1) =
     Some [0, 0, 1, 0, 0, 0] \<and>
   Option.bind (drawPixel (panel 12 4 0 (replicate 6 0)) 0 1 1) (\<lambda>s. getPixel s 0 1) = Some 0"
proof -
  have "driver_ok (panel 12 4 0 (replicate 6 0))" by (rule panel_ok) simp_all
  moreover have "map_option sharpmem_buffer (drawPixel (panel 12 4 0 (replicate 6 0)) 0 1 1) =
     Some [0, 0, 1, 0, 0, 0]" by code_simp
  moreover have "Option.bind (drawPixel (panel 12 4 0 (replicate 6 0)) 0 1 1)
     (\<lambda>s. getPixel s 0 1) = Some 0" by code_simp
  ultimately show ?thesis by (intro conjI)
qed

text \<open>
  Claim C3, on a panel 8 pixels wide and 8 high: after the command byte the row records
  carry the addresses 2 to 9, since \<open>(i + 1) / (WIDTH / 8) + 1\<close> is \<open>i + 2\<close> when a row
  has one byte.
\<close>

theorem refresh_width_8:
  "driver_ok (panel 8 8 0 (replicate 8 0)) \<and>
   map_option (wire_bytes \<circ> snd) (refresh example_bits (panel 8 8 0 (replicate 8 0))) =
     Some [0x03,
           2, 0, 0,  3, 0, 0,  4, 0, 0,  5, 0, 0,  6, 0, 0,  7, 0, 0,  8, 0, 0,  9, 0, 0,
           0]"
proof -
  have "driver_ok (panel 8 8 0 (replicate 8 0))" by (rule panel_ok) simp_all
  moreover have "map_option (wire_bytes \<circ> snd) (refresh example_bits (panel 8 8 0 (replicate 8 0))) =
     Some [0x03,
           2, 0, 0,  3, 0, 0,  4, 0, 0,  5, 0, 0,  6, 0, 0,  7, 0, 0,  8, 0, 0,  9, 0, 0,
           0]" by code_simp
  ultimately show ?thesis by (intro conjI)
qed

text \<open>
  Claim C6, on a panel 12 pixels wide and 4 high: \<open>clearDisplayBuffer\<close> followed by
  \<open>copyPixelBuffer\<close> yields \<open>(12 * 4) / 8 = 6\<close> bytes \<open>0xFF\<close>, while the row stride
  \<open>(12 + 7) / 8 = 2\<close> times the height is 8.
\<close>

theorem snapshot_width_12:
  "driver_ok (panel 12 4 0 (replicate 6 0)) \<and>
   Option.bind (clearDisplayBuffer (panel 12 4 0 (replicate 6 0))) copyPixelBuffer =
     Some [0xFF, 0xFF, 0xFF, 0xFF, 0xFF, 0xFF] \<and>
   ((12 + 7) div 8) * 4 = (8 :: int)"
proof -
  have "driver_ok (panel 12 4 0 (replicate 6 0))" by (rule panel_ok) simp_all
  moreover have "Option.bind (clearDisplayBuffer (panel 12 4 0 (replicate 6 0))) copyPixelBuffer =
     Some [0xFF, 0xFF, 0xFF, 0xFF, 0xFF, 0xFF]" by code_simp
  ultimately show ?thesis by simp
qed

section \<open>Vertical runs\<close>







section \<open>Runs and the pixel loop\<close>

lemma ff_is_minus_1: "(0xFF :: uint8) = - 1"
  by simp

lemma bit_ff: "b < 8 \<Longrightarrow> bit (0xFF :: uint8) b"
  unfolding ff_is_minus_1 by (simp add: bit_minus_1_iff)

lemma bit_two_pow: "n < 8 \<Longrightarrow> bit (2 ^ n :: uint8) b \<longleftrightarrow> b = n"
  by (auto simp: bit_exp_iff)

lemma if_or_nested: "(if B then v else (if A then v else x)) = (if A \<or> B then v else x)"
  by simp

lemma paints_unique:
  assumes "paints rb P v buf b1" and "paints rb Q v buf b2" and "\<And>px py. P px py = Q px py"
  shows "b1 = b2"
proof (rule nth_equalityI)
  show "length b1 = length b2" using assms(1,2) by (simp add: paints_def)
  fix k assume "k < length b1"
  then have k: "k < length buf" using assms(1) by (simp add: paints_def)
  show "b1 ! k = b2 ! k"
  proof (rule bit_word_eqI)
    fix b assume "b < LENGTH(8)"
    then have b: "b < 8" by simp
    from assms(1) k b have "bit (b1 ! k) b =
        (if \<exists>px py. P px py \<and> int k = px div 8 + py * rb \<and> int b = px mod 8
         then v else bit (buf ! k) b)" unfolding paints_def by blast
    moreover from assms(2) k b have "bit (b2 ! k) b =
        (if \<exists>px py. Q px py \<and> int k = px div 8 + py * rb \<and> int b = px mod 8
         then v else bit (buf ! k) b)" unfolding paints_def by blast
    ultimately show "bit (b1 ! k) b = bit (b2 ! k) b" by (simp add: assms(3))
  qed
qed

lemma paints_cong:
  "paints rb P v buf buf' \<Longrightarrow> (\<And>px py. P px py = Q px py) \<Longrightarrow> paints rb Q v buf buf'"
  by (simp add: paints_def)

lemma paints_none: "(\<And>px py. \<not> P px py) \<Longrightarrow> paints rb P v buf buf"
  by (simp add: paints_def)

lemma paints_trans:
  assumes "paints rb P v buf b1" and "paints rb Q v b1 b2"
  shows "paints rb (\<lambda>px py. P px py \<or> Q px py) v buf b2"
proof -
  from assms have len: "length b1 = length buf" "length b2 = length buf"
    by (simp_all add: paints_def)
  show ?thesis
    unfolding paints_def
  proof (intro conjI allI impI)
    show "length b2 = length buf" by (rule len)
    fix k b assume k: "k < length buf" and b: "b < (8::nat)"
    let ?c = "\<lambda>R. \<exists>px py. R px py \<and> int k = px div 8 + py * rb \<and> int b = px mod 8"
    from assms(1) k b have 1: "bit (b1 ! k) b = (if ?c P then v else bit (buf ! k) b)"
      unfolding paints_def by blast
    from assms(2) k b len have 2: "bit (b2 ! k) b = (if ?c Q then v else bit (b1 ! k) b)"
      unfolding paints_def by simp
    have 3: "?c (\<lambda>px py. P px py \<or> Q px py) \<longleftrightarrow> ?c P \<or> ?c Q" by blast
    show "bit (b2 ! k) b = (if ?c (\<lambda>px py. P px py \<or> Q px py) then v else bit (buf ! k) b)"
      unfolding 3 2 1 by (rule if_or_nested)
  qed
qed

lemma cell_iff:
  "0 \<le> b \<Longrightarrow> b < 8 \<Longrightarrow> (k = px div 8 + c \<and> b = px mod 8) \<longleftrightarrow> px = 8 * (k - c) + b"
  for b k px c :: int
  by presburger

text \<open>A masked write into byte \<open>p\<close>, whose bit 0 is pixel \<open>q0\<close> of row \<open>y\<close>.\<close>

lemma poke_paints:
  assumes p: "0 \<le> p" "p < int (length buf)"
    and q0: "q0 = 8 * (p - y * rb)"
    and m: "\<And>b. b < 8 \<Longrightarrow> bit m b \<longleftrightarrow> lo \<le> q0 + int b \<and> q0 + int b < hi"
    and inside: "lo < hi \<Longrightarrow> q0 \<le> lo \<and> hi \<le> q0 + 8"
    and f: "\<And>w. f w = (if v then w OR m else w AND NOT m)"
  shows "paints rb (\<lambda>px py. py = y \<and> lo \<le> px \<and> px < hi) v buf (buf[nat p := f (buf ! nat p)])"
  unfolding paints_def
proof (intro conjI allI impI)
  show "length (buf[nat p := f (buf ! nat p)]) = length buf" by simp
  fix k b assume k: "k < length buf" and b: "b < (8::nat)"
  have c: "(\<exists>px py. (py = y \<and> lo \<le> px \<and> px < hi) \<and> int k = px div 8 + py * rb \<and> int b = px mod 8)
           \<longleftrightarrow> int k = p \<and> bit m b"
  proof
    assume "\<exists>px py. (py = y \<and> lo \<le> px \<and> px < hi) \<and> int k = px div 8 + py * rb \<and> int b = px mod 8"
    then obtain px where r: "lo \<le> px" "px < hi" and e: "int k = px div 8 + y * rb \<and> int b = px mod 8"
      by blast
    from e b have px: "px = 8 * (int k - y * rb) + int b" by (subst (asm) cell_iff) simp_all
    from r inside have "q0 \<le> px" "px < q0 + 8" by auto
    with px q0 b have "int k = p" by auto
    with px q0 have "px = q0 + int b" by simp
    with r m [OF b] \<open>int k = p\<close> show "int k = p \<and> bit m b" by simp
  next
    assume a: "int k = p \<and> bit m b"
    with m [OF b] have r: "lo \<le> q0 + int b" "q0 + int b < hi" by simp_all
    from a q0 have "q0 + int b = 8 * (int k - y * rb) + int b" by simp
    with b have "int k = (q0 + int b) div 8 + y * rb \<and> int b = (q0 + int b) mod 8"
      by (subst cell_iff) simp_all
    with r show "\<exists>px py. (py = y \<and> lo \<le> px \<and> px < hi) \<and> int k = px div 8 + py * rb \<and> int b = px mod 8"
      by blast
  qed
  have kp: "int k = p \<longleftrightarrow> k = nat p" using p by auto
  show "bit (buf[nat p := f (buf ! nat p)] ! k) b =
        (if \<exists>px py. (py = y \<and> lo \<le> px \<and> px < hi) \<and> int k = px div 8 + py * rb \<and> int b = px mod 8
         then v else bit (buf ! k) b)"
    unfolding c kp using k b
    by (cases "k = nat p") (auto simp: f bit_or_iff bit_and_iff bit_not_iff)
qed

lemma memset_paints:
  assumes p: "0 \<le> p" "0 \<le> n" "p + n \<le> int (length buf)"
    and q0: "q0 = 8 * (p - y * rb)"
    and val: "val = (if v then 0xFF else 0x00)"
  shows "\<exists>b'. memset_buf buf p val n = Some b' \<and>
           paints rb (\<lambda>px py. py = y \<and> q0 \<le> px \<and> px < q0 + 8 * n) v buf b'"
proof (cases "n = 0")
  case True
  then show ?thesis by (simp add: memset_buf_def paints_none)
next
  case False
  let ?b' = "take (nat p) buf @ replicate (nat n) val @ drop (nat (p + n)) buf"
  from False p have ms: "memset_buf buf p val n = Some ?b'" by (simp add: memset_buf_def)
  have len: "length ?b' = length buf" using p by auto
  have bits: "bit val b = v" if "b < 8" for b
    using that bit_ff [of b] by (simp add: val)
  have "paints rb (\<lambda>px py. py = y \<and> q0 \<le> px \<and> px < q0 + 8 * n) v buf ?b'"
    unfolding paints_def
  proof (intro conjI allI impI)
    show "length ?b' = length buf" by (rule len)
    fix k b assume k: "k < length buf" and b: "b < (8::nat)"
    have c: "(\<exists>px py. (py = y \<and> q0 \<le> px \<and> px < q0 + 8 * n) \<and> int k = px div 8 + py * rb \<and> int b = px mod 8)
           \<longleftrightarrow> p \<le> int k \<and> int k < p + n"
    proof
      assume "\<exists>px py. (py = y \<and> q0 \<le> px \<and> px < q0 + 8 * n) \<and> int k = px div 8 + py * rb \<and> int b = px mod 8"
      then obtain px where r: "q0 \<le> px" "px < q0 + 8 * n"
        and e: "int k = px div 8 + y * rb \<and> int b = px mod 8" by blast
      from e b have px: "px = 8 * (int k - y * rb) + int b" by (subst (asm) cell_iff) simp_all
      with r q0 b show "p \<le> int k \<and> int k < p + n" by auto
    next
      assume a: "p \<le> int k \<and> int k < p + n"
      let ?px = "8 * (int k - y * rb) + int b"
      from b have "int k = ?px div 8 + y * rb \<and> int b = ?px mod 8"
        by (subst cell_iff) simp_all
      moreover from a q0 b have "q0 \<le> ?px \<and> ?px < q0 + 8 * n" by auto
      ultimately show "\<exists>px py. (py = y \<and> q0 \<le> px \<and> px < q0 + 8 * n) \<and> int k = px div 8 + py * rb \<and> int b = px mod 8"
        by blast
    qed
    have nth: "?b' ! k = (if p \<le> int k \<and> int k < p + n then val else buf ! k)"
      using k p by (auto simp: nth_append nat_add_distrib)
    show "bit (?b' ! k) b =
        (if \<exists>px py. (py = y \<and> q0 \<le> px \<and> px < q0 + 8 * n) \<and> int k = px div 8 + py * rb \<and> int b = px mod 8
         then v else bit (buf ! k) b)"
      unfolding c nth using bits [OF b] by simp
  qed
  with ms show ?thesis by blast
qed

lemma start_mask_spec:
  "i \<le> 8 \<Longrightarrow> 0 \<le> r \<Longrightarrow>
   snd (start_mask i r m) = (if r \<le> 8 - int i then 0 else r - (8 - int i)) \<and>
   (\<forall>b < 8. bit (fst (start_mask i r m)) b \<longleftrightarrow> bit m b \<or> (i \<le> b \<and> int b < int i + r))"
proof (induction i r m rule: start_mask.induct)
  case (1 i r m)
  show ?case
  proof (cases "i < 8 \<and> r > 0")
    case True
    then have eq: "start_mask i r m = start_mask (i + 1) (r - 1) (m OR set_tbl ! i)"
      by (subst start_mask.simps) simp
    from True have "i + 1 \<le> 8" "0 \<le> r - 1" by simp_all
    from "1.IH" [OF True this]
    have s: "snd (start_mask (i + 1) (r - 1) (m OR set_tbl ! i)) =
              (if r - 1 \<le> 8 - int (i + 1) then 0 else r - 1 - (8 - int (i + 1)))"
      and f: "\<And>b. b < 8 \<Longrightarrow> bit (fst (start_mask (i + 1) (r - 1) (m OR set_tbl ! i))) b \<longleftrightarrow>
              bit (m OR set_tbl ! i) b \<or> (i + 1 \<le> b \<and> int b < int (i + 1) + (r - 1))"
      by blast+
    have t: "bit (set_tbl ! i) b \<longleftrightarrow> b = i" for b
      using True by (simp add: set_tbl_nth bit_two_pow)
    show ?thesis
      unfolding eq
    proof (intro conjI allI impI)
      show "snd (start_mask (i + 1) (r - 1) (m OR set_tbl ! i)) =
            (if r \<le> 8 - int i then 0 else r - (8 - int i))"
        unfolding s by simp
      fix b :: nat assume "b < 8"
      from f [OF this] True
      show "bit (fst (start_mask (i + 1) (r - 1) (m OR set_tbl ! i))) b \<longleftrightarrow>
            bit m b \<or> (i \<le> b \<and> int b < int i + r)"
        by (auto simp: bit_or_iff t)
    qed
  next
    case False
    then have eq: "start_mask i r m = (m, r)"
      by (subst start_mask.simps) (simp only: if_False)
    from False "1.prems" have "i = 8 \<or> r = 0" by auto
    then show ?thesis unfolding eq using "1.prems" by auto
  qed
qed

lemma last_mask_spec:
  "n \<le> 8 \<Longrightarrow>
   (\<forall>b < 8. bit (last_mask i n m) b \<longleftrightarrow> bit m b \<or> (i \<le> b \<and> b < n))"
proof (induction i n m rule: last_mask.induct)
  case (1 i n m)
  show ?case
  proof (cases "i < n")
    case True
    then have eq: "last_mask i n m = last_mask (i + 1) n (m OR set_tbl ! i)"
      by (subst last_mask.simps) simp
    from "1.IH" [OF True "1.prems"]
    have f: "\<And>b. b < 8 \<Longrightarrow> bit (last_mask (i + 1) n (m OR set_tbl ! i)) b \<longleftrightarrow>
              bit (m OR set_tbl ! i) b \<or> (i + 1 \<le> b \<and> b < n)"
      by blast
    have t: "bit (set_tbl ! i) b \<longleftrightarrow> b = i" for b
      using True "1.prems" by (simp add: set_tbl_nth bit_two_pow)
    show ?thesis
      unfolding eq
    proof (intro allI impI)
      fix b :: nat assume "b < 8"
      from f [OF this] True
      show "bit (last_mask (i + 1) n (m OR set_tbl ! i)) b \<longleftrightarrow> bit m b \<or> (i \<le> b \<and> b < n)"
        by (auto simp: bit_or_iff t)
    qed
  next
    case False
    then have eq: "last_mask i n m = m"
      by (subst last_mask.simps) (simp only: if_False)
    show ?thesis unfolding eq using False by auto
  qed
qed

lemma row_cell_in_buffer:
  assumes "0 \<le> y" "y < h" "0 \<le> q" "q \<le> rb" "rb * h \<le> n"
  shows "0 \<le> q + y * rb \<and> q + y * rb \<le> (n::int)"
proof -
  from assms have rb: "0 \<le> rb" by simp
  with assms(1) have "0 \<le> y * rb" by simp
  moreover have "(y + 1) * rb \<le> h * rb" using assms(2) rb by (intro mult_right_mono) simp_all
  then have "q + y * rb \<le> h * rb" using assms(4) by (simp add: algebra_simps)
  ultimately show ?thesis using assms(3,5) by (simp add: mult.commute)
qed

lemma stride_bounds: "w \<le> 8 * ((w + 7) div 8) \<and> 8 * ((w + 7) div 8) \<le> w + 7" for w :: int
  by presburger

lemma drawFastRawHLine_paints:
  assumes W: "0 < WIDTH s" "WIDTH s \<le> 32767"
    and x: "0 \<le> x" and w: "0 \<le> w" and xw: "x + w \<le> WIDTH s"
    and y: "0 \<le> y" "y < HEIGHT s"
    and sz: "((WIDTH s + 7) div 8) * HEIGHT s \<le> int (length (sharpmem_buffer s))"
    and col: "color = 0 \<or> color = 1"
  shows "\<exists>b'. drawFastRawHLine s x y w color = Some (s\<lparr>sharpmem_buffer := b'\<rparr>) \<and>
          paints ((WIDTH s + 7) div 8) (\<lambda>px py. py = y \<and> x \<le> px \<and> px < x + w) (color = 1)
            (sharpmem_buffer s) b'"
proof -
  define rb where "rb = (WIDTH s + 7) div 8"
  define buf where "buf = sharpmem_buffer s"
  define v where "v \<longleftrightarrow> color = 1"
  define ofs where "ofs = x mod 8"
  define q where "q = x div 8"
  define k0 where "k0 = q + y * rb"
  have xq: "x = 8 * q + ofs" by (simp add: q_def ofs_def)
  have ofs: "0 \<le> ofs" "ofs < 8" by (simp_all add: ofs_def)
  have rbl: "WIDTH s \<le> 8 * rb" and rbu: "8 * rb \<le> WIDTH s + 7"
    using stride_bounds [of "WIDTH s"] by (simp_all add: rb_def)
  have F1: "int16 ((WIDTH s + 7) sdiv 8) = rb"
    using W by (simp add: rb_def sdiv_nonneg int16_id)
  have F2: "size_t w = w" using w xw W x by (simp add: size_t_def)
  have F3: "x AND 7 = ofs" by (simp add: and7_mod ofs_def)
  have F4: "x sdiv 8 = q" using x by (simp add: sdiv_nonneg q_def)
  have pb: "partial_byte color y m u = (if v then u OR m else u AND NOT m)" for m u
    using col by (auto simp: partial_byte_def v_def)
  have wb: "whole_byte color y = (if v then 0xFF else 0x00)"
    using col by (auto simp: whole_byte_def v_def Let_def)
  have sz': "rb * HEIGHT s \<le> int (length buf)" using sz by (simp add: rb_def buf_def)
  have cell: "0 \<le> c + y * rb \<and> c + y * rb \<le> int (length buf)" if "0 \<le> c" "c \<le> rb" for c
    using row_cell_in_buffer [OF y that sz'] .

  define tail where "tail b1 p1 rem =
      (if rem > 0 then
         (case memset_buf b1 p1 (whole_byte color y) (rem div 8) of
            None \<Rightarrow> None
          | Some buf2 \<Rightarrow>
              if rem mod 8 > 0
              then with_buffer s
                     (poke buf2 (p1 + rem div 8)
                        (partial_byte color y (last_mask 0 (nat (rem mod 8)) 0x00)))
              else Some (s\<lparr>sharpmem_buffer := buf2\<rparr>))
       else Some (s\<lparr>sharpmem_buffer := b1\<rparr>))" for b1 p1 rem

  have tail_paints:
    "\<exists>b'. tail b1 p1 rem = Some (s\<lparr>sharpmem_buffer := b'\<rparr>) \<and>
          paints rb (\<lambda>px py. py = y \<and> x1 \<le> px \<and> px < x1 + rem) v b1 b'"
    if len1: "length b1 = length buf" and rem0: "0 \<le> rem" and x10: "0 \<le> x1"
      and x1w: "x1 + rem \<le> WIDTH s"
      and al: "rem > 0 \<Longrightarrow> x1 = 8 * q1 \<and> p1 = q1 + y * rb"
    for b1 p1 rem x1 q1
  proof (cases "rem > 0")
    case False
    with rem0 have r0: "rem = 0" by simp
    then have "tail b1 p1 rem = Some (s\<lparr>sharpmem_buffer := b1\<rparr>)" by (simp add: tail_def)
    moreover have "paints rb (\<lambda>px py. py = y \<and> x1 \<le> px \<and> px < x1 + rem) v b1 b1"
      by (rule paints_none) (simp add: r0)
    ultimately show ?thesis by blast
  next
    case True
    define whole where "whole = rem div 8"
    define lastb where "lastb = rem mod 8"
    from al [OF True] have x1q: "x1 = 8 * q1" and p1: "p1 = q1 + y * rb" by simp_all
    have whole0: "0 \<le> whole" using rem0 by (simp add: whole_def)
    have split: "rem = 8 * whole + lastb" by (simp add: whole_def lastb_def)
    have lastb: "0 \<le> lastb" "lastb < 8" by (simp_all add: lastb_def)
    have q10: "0 \<le> q1" using x10 x1q by simp
    have "8 * (q1 + whole) \<le> 8 * rb" using x1w split lastb x1q rbl by simp
    then have q2: "q1 + whole \<le> rb" by simp
    from cell [OF q10] q10 q2 whole0 have p1_0: "0 \<le> p1" unfolding p1 by simp
    have "0 \<le> q1 + whole" using q10 whole0 by simp
    from cell [OF this q2] have p1_n: "p1 + whole \<le> int (length b1)"
      unfolding p1 len1 by (simp add: algebra_simps)
    have q0: "x1 = 8 * (p1 - y * rb)" unfolding p1 x1q by simp
    from memset_paints [OF p1_0 whole0 p1_n q0 wb]
    obtain b2 where ms: "memset_buf b1 p1 (whole_byte color y) whole = Some b2"
      and pt2: "paints rb (\<lambda>px py. py = y \<and> x1 \<le> px \<and> px < x1 + 8 * whole) v b1 b2"
      by blast
    have len2: "length b2 = length buf" using pt2 len1 by (simp add: paints_def)
    show ?thesis
    proof (cases "lastb > 0")
      case False
      with lastb have l0: "lastb = 0" by simp
      have t: "tail b1 p1 rem = Some (s\<lparr>sharpmem_buffer := b2\<rparr>)"
        unfolding tail_def whole_def [symmetric] lastb_def [symmetric]
        using True ms l0 by simp
      from pt2 have "paints rb (\<lambda>px py. py = y \<and> x1 \<le> px \<and> px < x1 + rem) v b1 b2"
        unfolding split l0 by simp
      with t show ?thesis by blast
    next
      case lpos: True
      define m where "m = last_mask 0 (nat lastb) 0x00"
      define p2 where "p2 = p1 + whole"
      define x2 where "x2 = x1 + 8 * whole"
      have "nat lastb \<le> 8" using lastb by simp
      from last_mask_spec [OF this, of 0 0]
      have bits: "bit m b \<longleftrightarrow> int b < lastb" if "b < 8" for b
        using that lastb unfolding m_def by auto
      have "8 * (q1 + whole) < 8 * rb" using x1w split lpos x1q rbl by simp
      then have q3: "q1 + whole + 1 \<le> rb" by simp
      have "0 \<le> q1 + whole + 1" using q10 whole0 by simp
      from cell [OF this q3]
      have p2r: "0 \<le> p2" "p2 < int (length b2)"
        unfolding p2_def p1 len2 using p1_0 whole0 p1 by (simp_all add: algebra_simps)
      have q02: "x2 = 8 * (p2 - y * rb)" unfolding x2_def p2_def using q0 by simp
      have mb: "bit m b \<longleftrightarrow> x2 \<le> x2 + int b \<and> x2 + int b < x2 + lastb" if "b < 8" for b
        using bits [OF that] by simp
      have ins: "x2 \<le> x2 \<and> x2 + lastb \<le> x2 + 8" using lastb by simp
      have pt3: "paints rb (\<lambda>px py. py = y \<and> x2 \<le> px \<and> px < x2 + lastb) v b2
                   (b2[nat p2 := partial_byte color y m (b2 ! nat p2)])"
        by (rule poke_paints [OF p2r q02 mb ins]) (simp_all add: pb)
      have pk: "poke b2 p2 (partial_byte color y m) =
                  Some (b2[nat p2 := partial_byte color y m (b2 ! nat p2)])"
        using p2r by (simp add: poke_def)
      have t: "tail b1 p1 rem =
                 Some (s\<lparr>sharpmem_buffer := b2[nat p2 := partial_byte color y m (b2 ! nat p2)]\<rparr>)"
        unfolding tail_def whole_def [symmetric] lastb_def [symmetric] m_def [symmetric]
          p2_def [symmetric]
        using True lpos by (simp add: ms pk with_buffer_def)
      have "paints rb (\<lambda>px py. py = y \<and> x1 \<le> px \<and> px < x1 + rem) v b1
                   (b2[nat p2 := partial_byte color y m (b2 ! nat p2)])"
        by (rule paints_cong [OF paints_trans [OF pt2 pt3]])
           (use split lastb whole0 in \<open>auto simp: x2_def\<close>)
      with t show ?thesis by blast
    qed
  qed

  show ?thesis
  proof (cases "ofs > 0")
    case False
    with ofs have o0: "ofs = 0" by simp
    have dr: "drawFastRawHLine s x y w color = tail buf k0 w"
      unfolding drawFastRawHLine_def Let_def F1 F2 F3 F4 tail_def k0_def buf_def
      by (simp add: o0)
    have "w > 0 \<Longrightarrow> x = 8 * q \<and> k0 = q + y * rb"
      using o0 xq by (simp add: k0_def)
    from tail_paints [OF refl w x xw this] dr show ?thesis
      unfolding rb_def [symmetric] buf_def [symmetric] v_def [symmetric] by simp
  next
    case True
    obtain m rem where sm: "start_mask (nat ofs) w 0x00 = (m, rem)" by force
    have "nat ofs \<le> 8" using ofs by simp
    from start_mask_spec [OF this w, of 0] sm True
    have rem: "rem = (if w \<le> 8 - ofs then 0 else w - (8 - ofs))"
      and bits: "\<And>b. b < 8 \<Longrightarrow> bit m b \<longleftrightarrow> ofs \<le> int b \<and> int b < ofs + w"
      by auto
    have q0': "0 \<le> q" using x by (simp add: q_def)
    have "8 * q < 8 * rb" using True xw w xq rbl by simp
    then have q2: "q + 1 \<le> rb" by simp
    have "0 \<le> q + 1" using q0' by simp
    from cell [OF this q2] cell [of q] q0' q2
    have k0r: "0 \<le> k0" "k0 < int (length buf)"
      unfolding k0_def by (simp_all add: algebra_simps)
    define b1 where "b1 = buf[nat k0 := partial_byte color y m (buf ! nat k0)]"
    have pk: "poke buf k0 (partial_byte color y m) = Some b1"
      using k0r by (simp add: poke_def b1_def)
    have dr: "drawFastRawHLine s x y w color = tail b1 (k0 + 1) rem"
      unfolding drawFastRawHLine_def Let_def F1 F2 F3 F4 tail_def
        k0_def [symmetric] buf_def [symmetric]
      using True by (simp add: sm pk)
    define x1 where "x1 = (if w \<le> 8 - ofs then x + w else 8 * q + 8)"
    have x1r: "x1 + rem = x + w" unfolding x1_def rem xq by simp
    have q0: "8 * q = 8 * (k0 - y * rb)" by (simp add: k0_def)
    have mb: "bit m b \<longleftrightarrow> x \<le> 8 * q + int b \<and> 8 * q + int b < x1" if "b < 8" for b
      using bits [OF that] that unfolding x1_def xq by auto
    have ins: "8 * q \<le> x \<and> x1 \<le> 8 * q + 8"
      unfolding x1_def xq using ofs by auto
    have pt1: "paints rb (\<lambda>px py. py = y \<and> x \<le> px \<and> px < x1) v buf b1"
      unfolding b1_def by (rule poke_paints [OF k0r q0 mb ins]) (simp_all add: pb)
    have len1: "length b1 = length buf" by (simp add: b1_def)
    have rem0: "0 \<le> rem" using w unfolding rem by simp
    have x10: "0 \<le> x1" using x w q0' unfolding x1_def by simp
    have x1w: "x1 + rem \<le> WIDTH s" using xw x1r by simp
    have al: "rem > 0 \<Longrightarrow> x1 = 8 * (q + 1) \<and> k0 + 1 = (q + 1) + y * rb"
      unfolding x1_def rem k0_def by (simp split: if_splits)
    from tail_paints [OF len1 rem0 x10 x1w al]
    obtain b' where t: "tail b1 (k0 + 1) rem = Some (s\<lparr>sharpmem_buffer := b'\<rparr>)"
      and pt: "paints rb (\<lambda>px py. py = y \<and> x1 \<le> px \<and> px < x1 + rem) v b1 b'"
      by blast
    have x_le: "x \<le> x1" unfolding x1_def xq using w ofs by simp
    have fin: "paints rb (\<lambda>px py. py = y \<and> x \<le> px \<and> px < x + w) v buf b'"
      by (rule paints_cong [OF paints_trans [OF pt1 pt]])
         (use rem0 x_le x1r in auto)
    have "drawFastRawHLine s x y w color = Some (s\<lparr>sharpmem_buffer := b'\<rparr>)"
      using t dr by simp
    with fin show ?thesis
      unfolding rb_def [symmetric] buf_def [symmetric] v_def [symmetric]
      by (intro exI [of _ b'] conjI)
  qed
qed

lemma vline_or_paints:
  assumes "0 \<le> q" "q + 1 \<le> rb" "rb * h \<le> int (length buf)"
    and "x = 8 * q + int ofs" "ofs < 8"
    and "\<And>b. b < 8 \<Longrightarrow> bit m b \<longleftrightarrow> b = ofs"
    and "0 \<le> y" "y + int n \<le> h"
  shows "\<exists>b'. vline_or buf (q + y * rb) rb m n = Some b' \<and>
           paints rb (\<lambda>px py. px = x \<and> y \<le> py \<and> py < y + int n) True buf b'"
  using assms(3,7,8)
proof (induction n arbitrary: buf y)
  case 0
  have "paints rb (\<lambda>px py. px = x \<and> y \<le> py \<and> py < y + int 0) True buf buf"
    by (rule paints_none) simp
  then show ?case by simp
next
  case (Suc n)
  let ?p = "q + y * rb"
  have yh: "y < h" using Suc.prems by simp
  have "0 \<le> q + 1" using assms(1) by simp
  from row_cell_in_buffer [OF Suc.prems(2) yh this assms(2) Suc.prems(1)]
    row_cell_in_buffer [OF Suc.prems(2) yh assms(1) _ Suc.prems(1)] assms(2)
  have pr: "0 \<le> ?p" "?p < int (length buf)" by (simp_all add: algebra_simps)
  let ?b1 = "buf[nat ?p := buf ! nat ?p OR m]"
  have pk: "poke buf ?p (\<lambda>v. v OR m) = Some ?b1" using pr by (simp add: poke_def)
  have q0: "8 * q = 8 * (?p - y * rb)" by simp
  have mb: "bit m b \<longleftrightarrow> x \<le> 8 * q + int b \<and> 8 * q + int b < x + 1" if "b < 8" for b
    using assms(6) [OF that] assms(4) by auto
  have ins: "8 * q \<le> x \<and> x + 1 \<le> 8 * q + 8" using assms(4,5) by simp
  have pt1: "paints rb (\<lambda>px py. py = y \<and> x \<le> px \<and> px < x + 1) True buf ?b1"
    by (rule poke_paints [OF pr q0 mb ins]) simp_all
  have len: "rb * h \<le> int (length ?b1)" using Suc.prems(1) by simp
  have "0 \<le> y + 1" "y + 1 + int n \<le> h" using Suc.prems by simp_all
  from Suc.IH [OF len this] obtain b' where
    run: "vline_or ?b1 (q + (y + 1) * rb) rb m n = Some b'"
    and pt2: "paints rb (\<lambda>px py. px = x \<and> y + 1 \<le> py \<and> py < y + 1 + int n) True ?b1 b'"
    by blast
  have nxt: "?p + rb = q + (y + 1) * rb" by (simp add: algebra_simps)
  have "vline_or buf ?p rb m (Suc n) = vline_or ?b1 (?p + rb) rb m n"
    by (simp add: pk)
  then have "vline_or buf ?p rb m (Suc n) = Some b'"
    unfolding nxt using run by simp
  moreover have "paints rb (\<lambda>px py. px = x \<and> y \<le> py \<and> py < y + int (Suc n)) True buf b'"
    by (rule paints_cong [OF paints_trans [OF pt1 pt2]]) auto
  ultimately show ?case by blast
qed

lemma vline_and_paints:
  assumes "0 \<le> q" "q + 1 \<le> rb" "rb * h \<le> int (length buf)"
    and "x = 8 * q + int ofs" "ofs < 8"
    and "\<And>b. b < 8 \<Longrightarrow> bit m b \<longleftrightarrow> b = ofs"
    and "0 \<le> y" "y + int n \<le> h"
  shows "\<exists>b'. vline_and buf (q + y * rb) rb (NOT m) n = Some b' \<and>
           paints rb (\<lambda>px py. px = x \<and> y \<le> py \<and> py < y + int n) False buf b'"
  using assms(3,7,8)
proof (induction n arbitrary: buf y)
  case 0
  have "paints rb (\<lambda>px py. px = x \<and> y \<le> py \<and> py < y + int 0) False buf buf"
    by (rule paints_none) simp
  then show ?case by simp
next
  case (Suc n)
  let ?p = "q + y * rb"
  have yh: "y < h" using Suc.prems by simp
  have "0 \<le> q + 1" using assms(1) by simp
  from row_cell_in_buffer [OF Suc.prems(2) yh this assms(2) Suc.prems(1)]
    row_cell_in_buffer [OF Suc.prems(2) yh assms(1) _ Suc.prems(1)] assms(2)
  have pr: "0 \<le> ?p" "?p < int (length buf)" by (simp_all add: algebra_simps)
  let ?b1 = "buf[nat ?p := buf ! nat ?p AND NOT m]"
  have pk: "poke buf ?p (\<lambda>v. v AND NOT m) = Some ?b1" using pr by (simp add: poke_def)
  have q0: "8 * q = 8 * (?p - y * rb)" by simp
  have mb: "bit m b \<longleftrightarrow> x \<le> 8 * q + int b \<and> 8 * q + int b < x + 1" if "b < 8" for b
    using assms(6) [OF that] assms(4) by auto
  have ins: "8 * q \<le> x \<and> x + 1 \<le> 8 * q + 8" using assms(4,5) by simp
  have pt1: "paints rb (\<lambda>px py. py = y \<and> x \<le> px \<and> px < x + 1) False buf ?b1"
    by (rule poke_paints [OF pr q0 mb ins]) simp_all
  have len: "rb * h \<le> int (length ?b1)" using Suc.prems(1) by simp
  have "0 \<le> y + 1" "y + 1 + int n \<le> h" using Suc.prems by simp_all
  from Suc.IH [OF len this] obtain b' where
    run: "vline_and ?b1 (q + (y + 1) * rb) rb (NOT m) n = Some b'"
    and pt2: "paints rb (\<lambda>px py. px = x \<and> y + 1 \<le> py \<and> py < y + 1 + int n) False ?b1 b'"
    by blast
  have nxt: "?p + rb = q + (y + 1) * rb" by (simp add: algebra_simps)
  have "vline_and buf ?p rb (NOT m) (Suc n) = vline_and ?b1 (?p + rb) rb (NOT m) n"
    by (simp add: pk)
  then have "vline_and buf ?p rb (NOT m) (Suc n) = Some b'"
    unfolding nxt using run by simp
  moreover have "paints rb (\<lambda>px py. px = x \<and> y \<le> py \<and> py < y + int (Suc n)) False buf b'"
    by (rule paints_cong [OF paints_trans [OF pt1 pt2]]) auto
  ultimately show ?case by blast
qed

text \<open>Facts about the byte and the bit of a raw pixel inside the panel.\<close>

lemma raw_pixel_cell:
  assumes W: "0 < W" "W \<le> 32767" and x: "0 \<le> x" "x < W"
  shows "int16 ((W + 7) sdiv 8) = (W + 7) div 8" and "(W + 7) sdiv 8 = (W + 7) div 8"
    and "x sdiv 8 = x div 8" and "0 \<le> x div 8" and "x div 8 + 1 \<le> (W + 7) div 8"
    and "x = 8 * (x div 8) + int (nat (x AND 7))" and "nat (x AND 7) < 8"
    and "set_tbl ! nat (x AND 7) = 2 ^ nat (x AND 7)"
    and "clr_tbl ! nat (x AND 7) = NOT (2 ^ nat (x AND 7))"
proof -
  show "(W + 7) sdiv 8 = (W + 7) div 8" using W by (simp add: sdiv_nonneg)
  then show "int16 ((W + 7) sdiv 8) = (W + 7) div 8" using W by (simp add: int16_id)
  show "x sdiv 8 = x div 8" using x by (simp add: sdiv_nonneg)
  show "0 \<le> x div 8" using x by simp
  show "x div 8 + 1 \<le> (W + 7) div 8" using x by presburger
  show "x = 8 * (x div 8) + int (nat (x AND 7))" by (simp add: and7_mod)
  show n: "nat (x AND 7) < 8" by (simp add: and7_mod)
  show "set_tbl ! nat (x AND 7) = 2 ^ nat (x AND 7)" using n by (rule set_tbl_nth)
  show "clr_tbl ! nat (x AND 7) = NOT (2 ^ nat (x AND 7))" using n by (rule clr_tbl_nth)
qed

lemma drawFastRawVLine_paints:
  assumes W: "0 < WIDTH s" "WIDTH s \<le> 32767"
    and x: "0 \<le> x" "x < WIDTH s" and y: "0 \<le> y" and h: "0 \<le> h" "y + h \<le> HEIGHT s"
    and sz: "((WIDTH s + 7) div 8) * HEIGHT s \<le> int (length (sharpmem_buffer s))"
    and col: "color = 0 \<or> color = 1"
  shows "\<exists>b'. drawFastRawVLine s x y h color = Some (s\<lparr>sharpmem_buffer := b'\<rparr>) \<and>
          paints ((WIDTH s + 7) div 8) (\<lambda>px py. px = x \<and> y \<le> py \<and> py < y + h) (color = 1)
            (sharpmem_buffer s) b'"
proof -
  note c = raw_pixel_cell [OF W x]
  have bits: "bit (2 ^ nat (x AND 7) :: uint8) b \<longleftrightarrow> b = nat (x AND 7)" if "b < 8" for b
    using c(7) by (simp add: bit_two_pow)
  have yn: "y + int (nat h) \<le> HEIGHT s" using h by simp
  have hh: "y + h = y + int (nat h)" using h by simp
  from col show ?thesis
  proof
    assume c1: "color = 1"
    from vline_or_paints [OF c(4) c(5) sz c(6) c(7) bits y yn]
    obtain b' where run: "vline_or (sharpmem_buffer s) (x div 8 + y * ((WIDTH s + 7) div 8))
          ((WIDTH s + 7) div 8) (2 ^ nat (x AND 7)) (nat h) = Some b'"
      and pt: "paints ((WIDTH s + 7) div 8) (\<lambda>px py. px = x \<and> y \<le> py \<and> py < y + int (nat h))
          True (sharpmem_buffer s) b'"
      by blast
    have "drawFastRawVLine s x y h color = Some (s\<lparr>sharpmem_buffer := b'\<rparr>)"
      unfolding drawFastRawVLine_def Let_def c(1) c(3) c(8)
      using c1 run by (simp add: with_buffer_def)
    with pt show ?thesis unfolding hh using c1 by (intro exI [of _ b']) simp
  next
    assume c0: "color = 0"
    from vline_and_paints [OF c(4) c(5) sz c(6) c(7) bits y yn]
    obtain b' where run: "vline_and (sharpmem_buffer s) (x div 8 + y * ((WIDTH s + 7) div 8))
          ((WIDTH s + 7) div 8) (NOT (2 ^ nat (x AND 7))) (nat h) = Some b'"
      and pt: "paints ((WIDTH s + 7) div 8) (\<lambda>px py. px = x \<and> y \<le> py \<and> py < y + int (nat h))
          False (sharpmem_buffer s) b'"
      by blast
    have "drawFastRawVLine s x y h color = Some (s\<lparr>sharpmem_buffer := b'\<rparr>)"
      unfolding drawFastRawVLine_def Let_def c(1) c(3) c(9)
      using c0 run by (simp add: with_buffer_def)
    with pt show ?thesis unfolding hh using c0 by (intro exI [of _ b']) simp
  qed
qed

text \<open>One pixel, written as \<open>drawPixel\<close> writes it for colours 0 and 1.\<close>

lemma pixel_poke_paints:
  assumes W: "0 < W" "W \<le> 32767" and x: "0 \<le> x" "x < W" and y: "0 \<le> y" "y < H"
    and sz: "((W + 7) div 8) * H \<le> int (length buf)"
  shows "\<exists>b'. poke buf (x sdiv 8 + y * ((W + 7) sdiv 8))
                 (if v then (\<lambda>u. u OR set_tbl ! nat (x AND 7))
                  else (\<lambda>u. u AND clr_tbl ! nat (x AND 7))) = Some b' \<and>
          paints ((W + 7) div 8) (\<lambda>px py. px = x \<and> py = y) v buf b'"
proof -
  note c = raw_pixel_cell [OF W x]
  let ?rb = "(W + 7) div 8"
  let ?p = "x div 8 + y * ?rb"
  let ?m = "2 ^ nat (x AND 7) :: uint8"
  let ?f = "if v then (\<lambda>u. u OR set_tbl ! nat (x AND 7))
                  else (\<lambda>u. u AND clr_tbl ! nat (x AND 7))"
  have "0 \<le> x div 8 + 1" using c(4) by simp
  from row_cell_in_buffer [OF y this c(5) sz] row_cell_in_buffer [OF y c(4) _ sz] c(5)
  have pr: "0 \<le> ?p" "?p < int (length buf)" by (simp_all add: algebra_simps)
  have pk: "poke buf (x sdiv 8 + y * ((W + 7) sdiv 8)) ?f = Some (buf[nat ?p := ?f (buf ! nat ?p)])"
    unfolding c(2) c(3) using pr by (simp add: poke_def)
  have q0: "8 * (x div 8) = 8 * (?p - y * ?rb)" by simp
  have mb: "bit ?m b \<longleftrightarrow> x \<le> 8 * (x div 8) + int b \<and> 8 * (x div 8) + int b < x + 1"
    if "b < 8" for b
  proof -
    have "bit ?m b \<longleftrightarrow> b = nat (x AND 7)" using c(7) by (simp add: bit_two_pow)
    also have "\<dots> \<longleftrightarrow> x = 8 * (x div 8) + int b" using c(6) by auto
    finally show ?thesis by auto
  qed
  have "0 \<le> x mod 8" "x mod 8 < 8" by simp_all
  moreover have "x = 8 * (x div 8) + x mod 8" by simp
  ultimately have ins: "8 * (x div 8) \<le> x \<and> x + 1 \<le> 8 * (x div 8) + 8" by linarith
  have f: "?f u = (if v then u OR ?m else u AND NOT ?m)" for u
    by (simp add: c(8) c(9))
  have "paints ?rb (\<lambda>px py. py = y \<and> x \<le> px \<and> px < x + 1) v buf (buf[nat ?p := ?f (buf ! nat ?p)])"
    by (rule poke_paints [OF pr q0 mb ins f])
  then have "paints ?rb (\<lambda>px py. px = x \<and> py = y) v buf (buf[nat ?p := ?f (buf ! nat ?p)])"
    by (rule paints_cong) auto
  with pk show ?thesis by blast
qed

lemma drawPixel_paints:
  assumes ok: "gfx_ok s"
    and x: "0 \<le> x" "x < gfx_width s" and y: "0 \<le> y" "y < gfx_height s"
    and sz: "((WIDTH s + 7) div 8) * HEIGHT s \<le> int (length (sharpmem_buffer s))"
    and col: "color = 0 \<or> color = 1"
  shows "\<exists>b'. drawPixel s x y color = Some (s\<lparr>sharpmem_buffer := b'\<rparr>) \<and>
          paints ((WIDTH s + 7) div 8)
            (\<lambda>px py. (px, py) = spec_rot (rotation s) (WIDTH s) (HEIGHT s) (x, y)) (color = 1)
            (sharpmem_buffer s) b'"
proof -
  from ok have W: "0 < WIDTH s" "WIDTH s \<le> 32767" and H: "0 < HEIGHT s" "HEIGHT s \<le> 32767"
    and rot: "rotation s = 0 \<or> rotation s = 1 \<or> rotation s = 2 \<or> rotation s = 3"
    and lw: "gfx_width s = (if rotation s = 1 \<or> rotation s = 3 then HEIGHT s else WIDTH s)"
    and lh: "gfx_height s = (if rotation s = 1 \<or> rotation s = 3 then WIDTH s else HEIGHT s)"
    by (simp_all add: gfx_ok_def)
  obtain rx ry where r: "spec_rot (rotation s) (WIDTH s) (HEIGHT s) (x, y) = (rx, ry)"
    by force
  have rng: "0 \<le> rx \<and> rx < WIDTH s \<and> 0 \<le> ry \<and> ry < HEIGHT s"
    using rot r x y lw lh by (auto simp: spec_rot_def split: if_splits)
  have code: "(if rotation s = 1 then (int16 (WIDTH s - 1 - y), x)
               else if rotation s = 2 then (int16 (WIDTH s - 1 - x), int16 (HEIGHT s - 1 - y))
               else if rotation s = 3 then (y, int16 (HEIGHT s - 1 - x))
               else (x, y)) = (rx, ry)"
    using rot r x y lw lh W H by (auto simp: spec_rot_def int16_id split: if_splits)
  have dp: "drawPixel s x y color =
          with_buffer s (poke (sharpmem_buffer s) (rx sdiv 8 + ry * ((WIDTH s + 7) sdiv 8))
             (if color = 1 then (\<lambda>u. u OR set_tbl ! nat (rx AND 7))
              else (\<lambda>u. u AND clr_tbl ! nat (rx AND 7))))"
  proof -
    from x y have inside: "\<not> (x < 0 \<or> gfx_width s \<le> x \<or> y < 0 \<or> gfx_height s \<le> y)"
      by simp
    from col show ?thesis
    proof
      assume "color = 1"
      then show ?thesis unfolding drawPixel_def code Let_def
        by (simp only: inside if_False if_True prod.case refl)
    next
      assume "color = 0"
      then show ?thesis unfolding drawPixel_def code Let_def
        by (simp only: inside if_False prod.case) simp
    qed
  qed
  from rng have rx: "0 \<le> rx" "rx < WIDTH s" and ry: "0 \<le> ry" "ry < HEIGHT s" by simp_all
  from pixel_poke_paints [OF W rx ry sz, of "color = 1"]
  obtain b' where pk: "poke (sharpmem_buffer s) (rx sdiv 8 + ry * ((WIDTH s + 7) sdiv 8))
             (if color = 1 then (\<lambda>u. u OR set_tbl ! nat (rx AND 7))
              else (\<lambda>u. u AND clr_tbl ! nat (rx AND 7))) = Some b'"
    and pt: "paints ((WIDTH s + 7) div 8) (\<lambda>px py. px = rx \<and> py = ry) (color = 1)
               (sharpmem_buffer s) b'"
    by blast
  have "drawPixel s x y color = Some (s\<lparr>sharpmem_buffer := b'\<rparr>)"
    unfolding dp pk by (simp add: with_buffer_def)
  moreover have "paints ((WIDTH s + 7) div 8)
            (\<lambda>px py. (px, py) = spec_rot (rotation s) (WIDTH s) (HEIGHT s) (x, y)) (color = 1)
            (sharpmem_buffer s) b'"
    by (rule paints_cong [OF pt]) (auto simp: r)
  ultimately show ?thesis by blast
qed

lemma pixel_run_paints:
  assumes ok: "gfx_ok s" and col: "color = 0 \<or> color = 1"
    and sz: "((WIDTH s + 7) div 8) * HEIGHT s \<le> int (length buf)"
  shows "\<exists>b'. pixel_run (s\<lparr>sharpmem_buffer := buf\<rparr>) x y n color = Some (s\<lparr>sharpmem_buffer := b'\<rparr>) \<and>
          paints ((WIDTH s + 7) div 8)
            (\<lambda>px py. \<exists>x'. x \<le> x' \<and> x' < x + int n \<and> 0 \<le> int16 x' \<and> int16 x' < gfx_width s \<and>
                0 \<le> y \<and> y < gfx_height s \<and>
                (px, py) = spec_rot (rotation s) (WIDTH s) (HEIGHT s) (int16 x', y)) (color = 1)
            buf b'"
  using sz
proof (induction n arbitrary: buf x)
  case 0
  have "paints ((WIDTH s + 7) div 8)
            (\<lambda>px py. \<exists>x'. x \<le> x' \<and> x' < x + int 0 \<and> 0 \<le> int16 x' \<and> int16 x' < gfx_width s \<and>
                0 \<le> y \<and> y < gfx_height s \<and>
                (px, py) = spec_rot (rotation s) (WIDTH s) (HEIGHT s) (int16 x', y)) (color = 1)
            buf buf"
    by (rule paints_none) simp
  then show ?case by (intro exI [of _ buf]) simp
next
  case (Suc n)
  let ?s = "s\<lparr>sharpmem_buffer := buf\<rparr>"
  let ?rb = "(WIDTH s + 7) div 8"
  let ?one = "\<lambda>px py. 0 \<le> int16 x \<and> int16 x < gfx_width s \<and> 0 \<le> y \<and> y < gfx_height s \<and>
                (px, py) = spec_rot (rotation s) (WIDTH s) (HEIGHT s) (int16 x, y)"
  have ok': "gfx_ok ?s" using ok by (simp add: gfx_ok_def)
  have first: "\<exists>b1. drawPixel ?s (int16 x) y color = Some (s\<lparr>sharpmem_buffer := b1\<rparr>) \<and>
                 paints ?rb ?one (color = 1) buf b1"
  proof (cases "0 \<le> int16 x \<and> int16 x < gfx_width s \<and> 0 \<le> y \<and> y < gfx_height s")
    case True
    then have c: "0 \<le> int16 x" "int16 x < gfx_width ?s" "0 \<le> y" "y < gfx_height ?s" by simp_all
    have sz': "((WIDTH ?s + 7) div 8) * HEIGHT ?s \<le> int (length (sharpmem_buffer ?s))"
      using Suc.prems by simp
    from drawPixel_paints [OF ok' c sz' col] obtain b1 where
      d: "drawPixel ?s (int16 x) y color = Some (?s\<lparr>sharpmem_buffer := b1\<rparr>)"
      and p: "paints ?rb (\<lambda>px py. (px, py) = spec_rot (rotation s) (WIDTH s) (HEIGHT s) (int16 x, y))
                (color = 1) buf b1"
      by auto
    have "paints ?rb ?one (color = 1) buf b1"
      by (rule paints_cong [OF p]) (use True in auto)
    with d show ?thesis by (intro exI [of _ b1]) simp
  next
    case False
    then have "drawPixel ?s (int16 x) y color = Some ?s" by (auto simp: drawPixel_def)
    moreover have "paints ?rb ?one (color = 1) buf buf"
      by (rule paints_none) (use False in auto)
    ultimately show ?thesis by (intro exI [of _ buf]) simp
  qed
  then obtain b1 where d: "drawPixel ?s (int16 x) y color = Some (s\<lparr>sharpmem_buffer := b1\<rparr>)"
    and p1: "paints ?rb ?one (color = 1) buf b1" by blast
  have len: "?rb * HEIGHT s \<le> int (length b1)"
    using p1 Suc.prems by (simp add: paints_def)
  from Suc.IH [OF len, of "x + 1"] obtain b' where
    run: "pixel_run (s\<lparr>sharpmem_buffer := b1\<rparr>) (x + 1) y n color = Some (s\<lparr>sharpmem_buffer := b'\<rparr>)"
    and p2: "paints ?rb
            (\<lambda>px py. \<exists>x'. x + 1 \<le> x' \<and> x' < x + 1 + int n \<and> 0 \<le> int16 x' \<and> int16 x' < gfx_width s \<and>
                0 \<le> y \<and> y < gfx_height s \<and>
                (px, py) = spec_rot (rotation s) (WIDTH s) (HEIGHT s) (int16 x', y)) (color = 1)
            b1 b'"
    by blast
  have "pixel_run ?s x y (Suc n) color = Some (s\<lparr>sharpmem_buffer := b'\<rparr>)"
    using d run by simp
  moreover have "paints ?rb
            (\<lambda>px py. \<exists>x'. x \<le> x' \<and> x' < x + int (Suc n) \<and> 0 \<le> int16 x' \<and> int16 x' < gfx_width s \<and>
                0 \<le> y \<and> y < gfx_height s \<and>
                (px, py) = spec_rot (rotation s) (WIDTH s) (HEIGHT s) (int16 x', y)) (color = 1)
            buf b'"
  proof (rule paints_cong [OF paints_trans [OF p1 p2]])
    fix px py
    have "(\<exists>x'. x \<le> x' \<and> x' < x + int (Suc n) \<and> 0 \<le> int16 x' \<and> int16 x' < gfx_width s \<and>
                0 \<le> y \<and> y < gfx_height s \<and>
                (px, py) = spec_rot (rotation s) (WIDTH s) (HEIGHT s) (int16 x', y))
          \<longleftrightarrow> ?one px py \<or>
             (\<exists>x'. x + 1 \<le> x' \<and> x' < x + 1 + int n \<and> 0 \<le> int16 x' \<and> int16 x' < gfx_width s \<and>
                0 \<le> y \<and> y < gfx_height s \<and>
                (px, py) = spec_rot (rotation s) (WIDTH s) (HEIGHT s) (int16 x', y))"
      (is "?L \<longleftrightarrow> ?A \<or> ?B")
    proof
      assume ?L
      then obtain x' where a: "x \<le> x'" "x' < x + int (Suc n)" "0 \<le> int16 x'" "int16 x' < gfx_width s"
        "0 \<le> y" "y < gfx_height s" "(px, py) = spec_rot (rotation s) (WIDTH s) (HEIGHT s) (int16 x', y)"
        by blast
      show "?A \<or> ?B"
      proof (cases "x' = x")
        case True
        with a show ?thesis by simp
      next
        case False
        with a have "x + 1 \<le> x'" "x' < x + 1 + int n" by simp_all
        with a show ?thesis by blast
      qed
    next
      assume "?A \<or> ?B"
      then show ?L
      proof
        assume ?A
        then show ?L by (intro exI [of _ x]) simp
      next
        assume ?B
        then obtain x' where a: "x + 1 \<le> x'" "x' < x + 1 + int n" "0 \<le> int16 x'" "int16 x' < gfx_width s"
          "0 \<le> y" "y < gfx_height s" "(px, py) = spec_rot (rotation s) (WIDTH s) (HEIGHT s) (int16 x', y)"
          by blast
        then show ?L by (intro exI [of _ x']) simp
      qed
    qed
    then show "(?one px py \<or>
             (\<exists>x'. x + 1 \<le> x' \<and> x' < x + 1 + int n \<and> 0 \<le> int16 x' \<and> int16 x' < gfx_width s \<and>
                0 \<le> y \<and> y < gfx_height s \<and>
                (px, py) = spec_rot (rotation s) (WIDTH s) (HEIGHT s) (int16 x', y))) =
          (\<exists>x'. x \<le> x' \<and> x' < x + int (Suc n) \<and> 0 \<le> int16 x' \<and> int16 x' < gfx_width s \<and>
                0 \<le> y \<and> y < gfx_height s \<and>
                (px, py) = spec_rot (rotation s) (WIDTH s) (HEIGHT s) (int16 x', y))"
      by simp
  qed
  ultimately show ?case by blast
qed

lemma paints_same:
  assumes "paints rb P v buf b1" and "\<And>px py. \<not> P px py"
  shows "b1 = buf"
  by (rule paints_unique [OF assms(1) paints_none [of P rb v buf]]) (simp_all add: assms(2))

lemma int16_range: "- 32768 \<le> int16 v \<and> int16 v < 32768"
  by (simp add: int16_def)

lemma int16_shift: "int16 (v + 65536 * k) = int16 v"
proof -
  have "v + 65536 * k + 32768 = (v + 32768) + 65536 * k" by simp
  then show ?thesis unfolding int16_def by (simp only: mod_mult_self2)
qed

lemma int16_split: "\<exists>k. v = int16 v + 65536 * k"
proof -
  have "v + 32768 = 65536 * ((v + 32768) div 65536) + (v + 32768) mod 65536" by simp
  then have "v = int16 v + 65536 * ((v + 32768) div 65536)" unfolding int16_def by linarith
  then show ?thesis ..
qed

text \<open>
  The pixels of a run of fewer than 32768 positions, narrowed to 16 bits, that fall on
  non-negative positions are those of the run that starts at the narrowed left end.
\<close>

lemma narrowed_run:
  assumes n: "n \<le> 32767" and t: "0 \<le> t" "t \<le> 32767"
  shows "(\<exists>x'. X \<le> x' \<and> x' < X + n \<and> int16 x' = t) \<longleftrightarrow> int16 X \<le> t \<and> t < int16 X + n"
proof
  obtain k where k: "X = int16 X + 65536 * k" using int16_split by blast
  note r = int16_range [of X]
  {
    assume "\<exists>x'. X \<le> x' \<and> x' < X + n \<and> int16 x' = t"
    then obtain x' where a: "X \<le> x'" "x' < X + n" "int16 x' = t" by blast
    define d where "d = x' - X"
    have d: "0 \<le> d" "d < n" using a by (simp_all add: d_def)
    have "x' = (int16 X + d) + 65536 * k" using k by (simp add: d_def)
    then have e: "t = int16 (int16 X + d)" using a(3) int16_shift [of "int16 X + d" k] by simp
    show "int16 X \<le> t \<and> t < int16 X + n"
    proof (cases "int16 X + d < 32768")
      case True
      then have "int16 (int16 X + d) = int16 X + d" using r d by (intro int16_id) simp_all
      with e d show ?thesis by simp
    next
      case False
      have "int16 (int16 X + d) = int16 (int16 X + d - 65536)"
        using int16_shift [of "int16 X + d - 65536" 1] by simp
      also have "\<dots> = int16 X + d - 65536" using False r d n by (intro int16_id) simp_all
      finally have "t < 0" using e r d n by simp
      with t show ?thesis by simp
    qed
  }
  {
    assume b: "int16 X \<le> t \<and> t < int16 X + n"
    have "int16 (t + 65536 * k) = t" using t by (simp add: int16_shift int16_id)
    moreover have "X \<le> t + 65536 * k" "t + 65536 * k < X + n" using b k by linarith+
    ultimately show "\<exists>x'. X \<le> x' \<and> x' < X + n \<and> int16 x' = t" by blast
  }
qed

lemma drawFastHLine_clip:
  assumes lw: "0 < gfx_width s" "gfx_width s \<le> 32767"
    and xr: "- 32768 \<le> x" "x \<le> 32767" and wr: "- 32767 \<le> w" "w \<le> 32767"
    and X0: "X0 = (if w < 0 then int16 (x + w + 1) else x)"
    and X1: "X1 = X0 + (if w < 0 then - w else w)"
  shows "drawFastHLine s x y w color =
     (if y < 0 \<or> gfx_height s \<le> y \<or> gfx_width s \<le> X0 \<or> X1 \<le> 0 then Some s
      else
        let x2 = max 0 X0; wf = min X1 (gfx_width s) - x2 in
          if rotation s = 0 then drawFastRawHLine s x2 y wf color
          else if rotation s = 1 then
            drawFastRawVLine s (int16 (WIDTH s - 1 - y)) x2 wf color
          else if rotation s = 2 then
            drawFastRawHLine s (int16 (int16 (WIDTH s - 1 - x2) - (wf - 1)))
              (int16 (HEIGHT s - 1 - y)) wf color
          else if rotation s = 3 then
            drawFastRawVLine s y (int16 (int16 (HEIGHT s - 1 - x2) - (wf - 1))) wf color
          else Some s)"
proof -
  define x1 where "x1 = (if w < 0 \<and> X0 < 0 then 0 else X0)"
  define w1 where "w1 = X1 - x1"
  have n: "(if w < 0 then
               let w' = int16 (w * - 1);
                   x' = int16 (x - (w' - 1))
               in if x' < 0 then (0, int16 (w' + x')) else (x', w')
             else (x, w)) = (x1, w1)"
  proof (cases "w < 0")
    case False
    then show ?thesis by (simp add: x1_def w1_def X0 X1)
  next
    case True
    have X0': "X0 = int16 (x + w + 1)" and X1': "X1 = X0 - w" using True by (simp_all add: X0 X1)
    have e: "x - (- w - 1) = x + w + 1" by simp
    have a: "int16 (w * - 1) = - w" using True wr by (simp add: int16_id)
    have b: "int16 (x - (- w - 1)) = X0"
      unfolding e X0' ..
    have c: "X0 < 0 \<Longrightarrow> int16 (- w + X0) = X1"
      using True wr int16_range [of "x + w + 1"] unfolding X1' X0' [symmetric]
      by (simp add: int16_id)
    have "(let w' = int16 (w * - 1);
               x' = int16 (x - (w' - 1))
           in if x' < 0 then (0, int16 (w' + x')) else (x', w')) = (x1, w1)"
      unfolding Let_def a b
    proof (cases "X0 < 0")
      case neg0: True
      then have "x1 = 0" "w1 = X1" using True by (simp_all add: x1_def w1_def)
      then show "(if X0 < 0 then (0, int16 (- w + X0)) else (X0, - w)) = (x1, w1)"
        using neg0 c by (simp only: if_True)
    next
      case pos0: False
      then have "x1 = X0" by (simp add: x1_def)
      moreover have "w1 = - w" unfolding w1_def \<open>x1 = X0\<close> by (simp add: X1')
      ultimately show "(if X0 < 0 then (0, int16 (- w + X0)) else (X0, - w)) = (x1, w1)"
        using pos0 by (simp only: if_False)
    qed
    then show ?thesis using True by (simp only: if_True)
  qed
  have x1w1: "x1 + w1 = X1" by (simp add: w1_def)
  have x1_ge: "gfx_width s \<le> x1 \<longleftrightarrow> gfx_width s \<le> X0"
    using lw by (simp add: x1_def)
  have X01: "X0 \<le> X1" using wr by (auto simp: X0 X1)
  show ?thesis
  proof (cases "y < 0 \<or> gfx_height s \<le> y \<or> gfx_width s \<le> X0 \<or> X1 \<le> 0")
    case True
    then have "y < 0 \<or> gfx_height s \<le> y \<or> gfx_width s \<le> x1 \<or> x1 + w1 - 1 < 0"
      unfolding x1_ge x1w1 by auto
    then show ?thesis
      unfolding drawFastHLine_def n using True by (simp add: Let_def)
  next
    case False
    then have rej: "\<not> (y < 0 \<or> gfx_height s \<le> y \<or> gfx_width s \<le> x1 \<or> x1 + w1 - 1 < 0)"
      unfolding x1_ge x1w1 by auto
    from False have X1pos: "0 < X1" and X0lw: "X0 < gfx_width s" by simp_all
    define x2 where "x2 = max 0 X0"
    define wf where "wf = min X1 (gfx_width s) - x2"
    have x2r: "0 \<le> x2" "x2 < gfx_width s" "x2 \<le> X1"
      using X0lw lw X1pos X01 by (simp_all add: x2_def)
    have c1: "(if x1 < 0 then (0, int16 (w1 + x1)) else (x1, w1)) = (x2, X1 - x2)"
    proof (cases "x1 < 0")
      case True
      then have X0n: "X0 < 0" and wpos: "\<not> w < 0" by (simp_all add: x1_def split: if_splits)
      then have "X1 \<le> 32767" using wr by (simp add: X0 X1)
      then have "int16 X1 = X1" using X1pos by (simp add: int16_id)
      with X0n have "X0 < 0" "int16 X1 = X1" by simp_all
      moreover note this(2)
      ultimately show ?thesis using True x1w1 by (simp add: x2_def add.commute)
    next
      case False
      then have "x2 = x1" by (auto simp: x2_def x1_def split: if_splits)
      with False show ?thesis by (simp add: w1_def)
    qed
    have c2: "(if gfx_width s \<le> x2 + (X1 - x2) then int16 (gfx_width s - x2) else X1 - x2) = wf"
      using x2r lw by (simp add: wf_def int16_id min_def)
    show ?thesis
      unfolding drawFastHLine_def n
      by (simp only: Let_def prod.case rej False if_False c1 c2
            x2_def [symmetric] wf_def [symmetric])
  qed
qed

lemma drawPixel_outside:
  "x < 0 \<or> gfx_width s \<le> x \<or> y < 0 \<or> gfx_height s \<le> y \<Longrightarrow> drawPixel s x y color = Some s"
  unfolding drawPixel_def by (rule if_P)

lemma pixel_run_right:
  "0 \<le> x \<Longrightarrow> gfx_width s \<le> x \<Longrightarrow> x + int n \<le> 32768 \<Longrightarrow> pixel_run s x y n color = Some s"
proof (induction n arbitrary: x)
  case 0
  then show ?case by simp
next
  case (Suc n)
  then have "int16 x = x" by (intro int16_id) simp_all
  with Suc.prems have "drawPixel s (int16 x) y color = Some s" by (simp add: drawPixel_outside)
  moreover have "pixel_run s (x + 1) y n color = Some s" using Suc.prems by (intro Suc.IH) simp_all
  ultimately show ?case by simp
qed

lemma pixel_run_add:
  "pixel_run s x y (n + m) color =
     (case pixel_run s x y n color of
        None \<Rightarrow> None
      | Some s' \<Rightarrow> pixel_run s' (x + int n) y m color)"
proof (induction n arbitrary: s x)
  case 0
  then show ?case by simp
next
  case (Suc n)
  show ?case
  proof (cases "drawPixel s (int16 x) y color")
    case None
    then show ?thesis by simp
  next
    case (Some s1)
    have e: "x + 1 + int n = x + int (Suc n)" by simp
    show ?thesis using Some Suc.IH [of s1 "x + 1"] unfolding e by simp
  qed
qed

text \<open>
  Colours 0 and 1. On a driver whose buffer holds \<open>row stride * HEIGHT\<close> bytes, with
  \<open>x\<close> an \<open>int16_t\<close> value and a width other than \<open>-32768\<close>, \<open>drawFastHLine\<close> returns
  the very state that the pixel loop returns: under every rotation, for every \<open>y\<close>, for
  negative widths, with clipping at both ends of the canvas and with a left end that
  leaves the 16-bit range.
\<close>

lemma drawFastHLine_black_white:
  assumes ok: "gfx_ok s"
    and sz: "((WIDTH s + 7) div 8) * HEIGHT s \<le> int (length (sharpmem_buffer s))"
    and col: "color = 0 \<or> color = 1"
    and xr: "- 32768 \<le> x" "x \<le> 32767"
    and wr: "- 32767 \<le> w" "w \<le> 32767"
  shows "drawFastHLine s x y w color = hline_by_pixels s x y w color"
proof -
  define Xm where "Xm = (if w < 0 then x + w + 1 else x)"
  define nn where "nn = (if w < 0 then - w else w)"
  define X0 where "X0 = (if w < 0 then int16 (x + w + 1) else x)"
  define X1 where "X1 = X0 + (if w < 0 then - w else w)"
  define rb where "rb = (WIDTH s + 7) div 8"
  define buf where "buf = sharpmem_buffer s"
  define lw where "lw = gfx_width s"
  define lh where "lh = gfx_height s"
  define W where "W = WIDTH s"
  define H where "H = HEIGHT s"
  define r where "r = rotation s"
  from ok have Wr: "0 < W" "W \<le> 32767" and Hr: "0 < H" "H \<le> 32767"
    and rot: "r = 0 \<or> r = 1 \<or> r = 2 \<or> r = 3"
    and lwd: "lw = (if r = 1 \<or> r = 3 then H else W)"
    and lhd: "lh = (if r = 1 \<or> r = 3 then W else H)"
    by (simp_all add: gfx_ok_def W_def H_def r_def lw_def lh_def)
  have lwr: "0 < lw" "lw \<le> 32767" using Wr Hr lwd by auto
  have nn: "0 \<le> nn" "nn \<le> 32767" using wr by (auto simp: nn_def)
  have X0n: "X0 = int16 Xm" using xr by (simp add: X0_def Xm_def int16_id)
  have X1n: "X1 = X0 + nn" by (simp add: X1_def nn_def)
  have X01: "X0 \<le> X1" using nn X1n by simp
  have n: "Xm + int (nat nn) = Xm + nn" using nn by simp
  have sid: "s\<lparr>sharpmem_buffer := sharpmem_buffer s\<rparr> = s" by simp
  have hp: "hline_by_pixels s x y w color = pixel_run s Xm y (nat nn) color"
    by (simp add: hline_by_pixels_def Xm_def nn_def)
  define Pid where "Pid = (\<lambda>px py. \<exists>x'. X0 \<le> x' \<and> x' < X1 \<and> 0 \<le> x' \<and> x' < lw \<and>
                0 \<le> y \<and> y < lh \<and> (px, py) = spec_rot r W H (x', y))"
  from pixel_run_paints [OF ok col sz, of Xm y "nat nn"]
  obtain bp where prun: "pixel_run s Xm y (nat nn) color = Some (s\<lparr>sharpmem_buffer := bp\<rparr>)"
    and pp0: "paints rb (\<lambda>px py. \<exists>x'. Xm \<le> x' \<and> x' < Xm + nn \<and> 0 \<le> int16 x' \<and> int16 x' < lw \<and>
                0 \<le> y \<and> y < lh \<and> (px, py) = spec_rot r W H (int16 x', y)) (color = 1) buf bp"
    unfolding sid n rb_def buf_def lw_def lh_def W_def H_def r_def by blast
  have pp: "paints rb Pid (color = 1) buf bp"
  proof (rule paints_cong [OF pp0])
    fix px py
    show "(\<exists>x'. Xm \<le> x' \<and> x' < Xm + nn \<and> 0 \<le> int16 x' \<and> int16 x' < lw \<and>
                0 \<le> y \<and> y < lh \<and> (px, py) = spec_rot r W H (int16 x', y)) = Pid px py"
    proof
      assume "\<exists>x'. Xm \<le> x' \<and> x' < Xm + nn \<and> 0 \<le> int16 x' \<and> int16 x' < lw \<and>
                0 \<le> y \<and> y < lh \<and> (px, py) = spec_rot r W H (int16 x', y)"
      then obtain x' where a: "Xm \<le> x'" "x' < Xm + nn" "0 \<le> int16 x'" "int16 x' < lw"
        "0 \<le> y" "y < lh" "(px, py) = spec_rot r W H (int16 x', y)" by blast
      have t: "int16 x' \<le> 32767" using a(4) lwr by simp
      have "\<exists>x''. Xm \<le> x'' \<and> x'' < Xm + nn \<and> int16 x'' = int16 x'" using a(1,2) by blast
      then have "int16 Xm \<le> int16 x' \<and> int16 x' < int16 Xm + nn"
        by (simp only: narrowed_run [OF nn(2) a(3) t])
      then have "X0 \<le> int16 x' \<and> int16 x' < X1" by (simp add: X0n X1n)
      with a show "Pid px py" unfolding Pid_def by blast
    next
      assume "Pid px py"
      then obtain t where a: "X0 \<le> t" "t < X1" "0 \<le> t" "t < lw"
        "0 \<le> y" "y < lh" "(px, py) = spec_rot r W H (t, y)" unfolding Pid_def by blast
      have t: "t \<le> 32767" using a(4) lwr by simp
      have "int16 Xm \<le> t \<and> t < int16 Xm + nn" using a(1,2) by (simp add: X0n X1n)
      then have "\<exists>x'. Xm \<le> x' \<and> x' < Xm + nn \<and> int16 x' = t"
        by (simp only: narrowed_run [OF nn(2) a(3) t])
      then obtain x' where "Xm \<le> x'" "x' < Xm + nn" "int16 x' = t" by blast
      with a show "\<exists>x'. Xm \<le> x' \<and> x' < Xm + nn \<and> 0 \<le> int16 x' \<and> int16 x' < lw \<and>
                0 \<le> y \<and> y < lh \<and> (px, py) = spec_rot r W H (int16 x', y)"
        by (intro exI [of _ x']) simp
    qed
  qed
  note clip = drawFastHLine_clip [where y = y and color = color,
      OF lwr [unfolded lw_def] xr wr X0_def X1_def]
  show ?thesis
  proof (cases "y < 0 \<or> lh \<le> y \<or> lw \<le> X0 \<or> X1 \<le> 0")
    case True
    then have T': "y < 0 \<or> gfx_height s \<le> y \<or> gfx_width s \<le> X0 \<or> X1 \<le> 0"
      by (simp add: lw_def lh_def)
    have "drawFastHLine s x y w color = Some s"
      by (subst clip) (rule if_P [OF T'])
    moreover have "\<not> Pid px py" for px py
      using True unfolding Pid_def by auto
    from paints_same [OF pp this] have "bp = buf" .
    then have "pixel_run s Xm y (nat nn) color = Some s"
      using prun by (simp add: buf_def)
    ultimately show ?thesis by (simp add: hp)
  next
    case False
    then have yr: "0 \<le> y" "y < lh" and X0lw: "X0 < lw" and X1pos: "0 < X1" by simp_all
    from False have F': "\<not> (y < 0 \<or> gfx_height s \<le> y \<or> gfx_width s \<le> X0 \<or> X1 \<le> 0)"
      by (simp add: lw_def lh_def)
    define x2 where "x2 = max 0 X0"
    define wf where "wf = min X1 lw - x2"
    have x2r: "0 \<le> x2" "x2 < lw" "x2 \<le> X1" using X0lw lwr X1pos X01 by (simp_all add: x2_def)
    have wf0: "0 \<le> wf" "x2 + wf \<le> lw" using x2r by (simp_all add: wf_def)
    have code: "drawFastHLine s x y w color =
          (if r = 0 then drawFastRawHLine s x2 y wf color
           else if r = 1 then drawFastRawVLine s (int16 (W - 1 - y)) x2 wf color
           else if r = 2 then
             drawFastRawHLine s (int16 (int16 (W - 1 - x2) - (wf - 1))) (int16 (H - 1 - y)) wf color
           else if r = 3 then
             drawFastRawVLine s y (int16 (int16 (H - 1 - x2) - (wf - 1))) wf color
           else Some s)"
      by (subst clip, subst if_not_P [OF F'])
         (simp only: Let_def x2_def wf_def lw_def W_def H_def r_def)
    have Pid_eq: "Pid px py \<longleftrightarrow> (\<exists>x'. x2 \<le> x' \<and> x' < x2 + wf \<and> (px, py) = spec_rot r W H (x', y))"
      for px py
    proof -
      have rg: "X0 \<le> x' \<and> x' < X1 \<and> 0 \<le> x' \<and> x' < lw \<longleftrightarrow> x2 \<le> x' \<and> x' < x2 + wf" for x'
        by (auto simp: x2_def wf_def)
      show ?thesis
      proof
        assume "Pid px py"
        then obtain x' where "X0 \<le> x' \<and> x' < X1 \<and> 0 \<le> x' \<and> x' < lw"
          and e: "(px, py) = spec_rot r W H (x', y)" unfolding Pid_def by blast
        then have "x2 \<le> x' \<and> x' < x2 + wf" by (simp only: rg)
        with e show "\<exists>x'. x2 \<le> x' \<and> x' < x2 + wf \<and> (px, py) = spec_rot r W H (x', y)"
          by blast
      next
        assume "\<exists>x'. x2 \<le> x' \<and> x' < x2 + wf \<and> (px, py) = spec_rot r W H (x', y)"
        then obtain x' where a: "x2 \<le> x' \<and> x' < x2 + wf"
          and e: "(px, py) = spec_rot r W H (x', y)" by blast
        from a have "X0 \<le> x' \<and> x' < X1 \<and> 0 \<le> x' \<and> x' < lw" by (simp only: rg)
        with e yr show "Pid px py" unfolding Pid_def by blast
      qed
    qed
    have fin: "drawFastHLine s x y w color = Some (s\<lparr>sharpmem_buffer := bp\<rparr>)"
      if d: "drawFastHLine s x y w color = Some (s\<lparr>sharpmem_buffer := bc\<rparr>)"
        and p: "paints rb Pc (color = 1) buf bc"
        and e: "\<And>px py. Pc px py \<longleftrightarrow> (\<exists>x'. x2 \<le> x' \<and> x' < x2 + wf \<and> (px, py) = spec_rot r W H (x', y))"
      for bc Pc
    proof -
      have "bc = bp" by (rule paints_unique [OF p pp]) (simp add: e Pid_eq)
      with d show ?thesis by simp
    qed
    have Ws: "0 < WIDTH s" "WIDTH s \<le> 32767" using Wr by (simp_all add: W_def)
    have "drawFastHLine s x y w color = Some (s\<lparr>sharpmem_buffer := bp\<rparr>)"
      using rot
    proof (elim disjE)
      assume r0: "r = 0"
      then have l: "lw = W" "lh = H" using lwd lhd by simp_all
      have a: "x2 + wf \<le> WIDTH s" "y < HEIGHT s" using wf0 yr l by (simp_all add: W_def H_def)
      from drawFastRawHLine_paints [OF Ws x2r(1) wf0(1) a(1) yr(1) a(2) sz col]
      obtain bc where d: "drawFastRawHLine s x2 y wf color = Some (s\<lparr>sharpmem_buffer := bc\<rparr>)"
        and p: "paints rb (\<lambda>px py. py = y \<and> x2 \<le> px \<and> px < x2 + wf) (color = 1) buf bc"
        unfolding rb_def buf_def by blast
      show ?thesis
        by (rule fin [OF _ p]) (auto simp: code r0 d spec_rot_def)
    next
      assume r1: "r = 1"
      then have l: "lw = H" "lh = W" using lwd lhd by simp_all
      have c: "int16 (W - 1 - y) = W - 1 - y" using yr l Wr by (simp add: int16_id)
      have a: "0 \<le> W - 1 - y" "W - 1 - y < WIDTH s" "x2 + wf \<le> HEIGHT s"
        using wf0 yr l by (simp_all add: W_def H_def)
      from drawFastRawVLine_paints [OF Ws a(1,2) x2r(1) wf0(1) a(3) sz col]
      obtain bc where d: "drawFastRawVLine s (W - 1 - y) x2 wf color = Some (s\<lparr>sharpmem_buffer := bc\<rparr>)"
        and p: "paints rb (\<lambda>px py. px = W - 1 - y \<and> x2 \<le> py \<and> py < x2 + wf) (color = 1) buf bc"
        unfolding rb_def buf_def by blast
      show ?thesis
        by (rule fin [OF _ p]) (auto simp: code r1 c d spec_rot_def)
    next
      assume r2: "r = 2"
      then have l: "lw = W" "lh = H" using lwd lhd by simp_all
      have c: "int16 (H - 1 - y) = H - 1 - y"
        "int16 (int16 (W - 1 - x2) - (wf - 1)) = W - x2 - wf"
        using yr l Wr Hr x2r wf0 by (simp_all add: int16_id)
      have a: "0 \<le> W - x2 - wf" "W - x2 - wf + wf \<le> WIDTH s" "0 \<le> H - 1 - y"
        "H - 1 - y < HEIGHT s"
        using wf0 yr l x2r by (simp_all add: W_def H_def)
      from drawFastRawHLine_paints [OF Ws a(1) wf0(1) a(2,3,4) sz col]
      obtain bc where d: "drawFastRawHLine s (W - x2 - wf) (H - 1 - y) wf color =
            Some (s\<lparr>sharpmem_buffer := bc\<rparr>)"
        and p: "paints rb (\<lambda>px py. py = H - 1 - y \<and> W - x2 - wf \<le> px \<and> px < W - x2 - wf + wf)
                  (color = 1) buf bc"
        unfolding rb_def buf_def by blast
      have e: "(py = H - 1 - y \<and> W - x2 - wf \<le> px \<and> px < W - x2 - wf + wf) \<longleftrightarrow>
               (\<exists>x'. x2 \<le> x' \<and> x' < x2 + wf \<and> (px, py) = spec_rot r W H (x', y))" for px py
      proof
        assume "py = H - 1 - y \<and> W - x2 - wf \<le> px \<and> px < W - x2 - wf + wf"
        then show "\<exists>x'. x2 \<le> x' \<and> x' < x2 + wf \<and> (px, py) = spec_rot r W H (x', y)"
          by (intro exI [of _ "W - 1 - px"]) (simp add: spec_rot_def r2)
      next
        assume "\<exists>x'. x2 \<le> x' \<and> x' < x2 + wf \<and> (px, py) = spec_rot r W H (x', y)"
        then show "py = H - 1 - y \<and> W - x2 - wf \<le> px \<and> px < W - x2 - wf + wf"
          by (auto simp: spec_rot_def r2)
      qed
      show ?thesis
        by (rule fin [OF _ p e]) (simp add: code r2 c d)
    next
      assume r3: "r = 3"
      then have l: "lw = H" "lh = W" using lwd lhd by simp_all
      have c: "int16 (int16 (H - 1 - x2) - (wf - 1)) = H - x2 - wf"
        using yr l Wr Hr x2r wf0 by (simp_all add: int16_id)
      have a: "y < WIDTH s" "0 \<le> H - x2 - wf" "H - x2 - wf + wf \<le> HEIGHT s"
        using wf0 yr l x2r by (simp_all add: W_def H_def)
      from drawFastRawVLine_paints [OF Ws yr(1) a(1,2) wf0(1) a(3) sz col]
      obtain bc where d: "drawFastRawVLine s y (H - x2 - wf) wf color =
            Some (s\<lparr>sharpmem_buffer := bc\<rparr>)"
        and p: "paints rb (\<lambda>px py. px = y \<and> H - x2 - wf \<le> py \<and> py < H - x2 - wf + wf)
                  (color = 1) buf bc"
        unfolding rb_def buf_def by blast
      have e: "(px = y \<and> H - x2 - wf \<le> py \<and> py < H - x2 - wf + wf) \<longleftrightarrow>
               (\<exists>x'. x2 \<le> x' \<and> x' < x2 + wf \<and> (px, py) = spec_rot r W H (x', y))" for px py
      proof
        assume "px = y \<and> H - x2 - wf \<le> py \<and> py < H - x2 - wf + wf"
        then show "\<exists>x'. x2 \<le> x' \<and> x' < x2 + wf \<and> (px, py) = spec_rot r W H (x', y)"
          by (intro exI [of _ "H - 1 - py"]) (simp add: spec_rot_def r3)
      next
        assume "\<exists>x'. x2 \<le> x' \<and> x' < x2 + wf \<and> (px, py) = spec_rot r W H (x', y)"
        then show "px = y \<and> H - x2 - wf \<le> py \<and> py < H - x2 - wf + wf"
          by (auto simp: spec_rot_def r3)
      qed
      show ?thesis
        by (rule fin [OF _ p e]) (simp add: code r3 c d)
    qed
    then show ?thesis by (simp add: hp prun)
  qed
qed


lemma drawFastHLine_black_white_example:
  "drawFastHLine (panel 24 4 2 (replicate 12 0)) 20 1 (- 17) 1 =
     hline_by_pixels (panel 24 4 2 (replicate 12 0)) 20 1 (- 17) 1 \<and>
   map_option sharpmem_buffer (drawFastHLine (panel 24 4 2 (replicate 12 0)) 20 1 (- 17) 1) =
     Some [0, 0, 0, 0, 0, 0, 0xF8, 0xFF, 0x0F, 0, 0, 0] \<and>
   map_option sharpmem_buffer (drawFastHLine (panel 8 4 0 (replicate 4 0)) (- 32768) 0 (- 32767) 1) =
     Some [0xFC, 0, 0, 0] \<and>
   drawFastHLine (panel 8 4 0 (replicate 4 0)) (- 32768) 0 (- 32767) 1 =
     hline_by_pixels (panel 8 4 0 (replicate 4 0)) (- 32768) 0 (- 32767) 1"
proof -
  let ?p = "panel 24 4 2 (replicate 12 0)"
  let ?q = "panel 8 4 0 (replicate 4 0)"
  have ok: "gfx_ok ?p" by (simp add: gfx_ok_def panel_simps panel_rot)
  have sz: "((WIDTH ?p + 7) div 8) * HEIGHT ?p \<le> int (length (sharpmem_buffer ?p))"
    by (simp add: panel_simps)
  have okq: "gfx_ok ?q" by (simp add: gfx_ok_def panel_simps panel_rot)
  have szq: "((WIDTH ?q + 7) div 8) * HEIGHT ?q \<le> int (length (sharpmem_buffer ?q))"
    by (simp add: panel_simps)
  have v: "map_option sharpmem_buffer (drawFastHLine ?p 20 1 (- 17) 1) =
     Some [0, 0, 0, 0, 0, 0, 0xF8, 0xFF, 0x0F, 0, 0, 0]" by code_simp
  have vq: "map_option sharpmem_buffer (drawFastHLine ?q (- 32768) 0 (- 32767) 1) =
     Some [0xFC, 0, 0, 0]" by code_simp
  have e: "drawFastHLine ?p 20 1 (- 17) 1 = hline_by_pixels ?p 20 1 (- 17) 1"
    by (rule drawFastHLine_black_white [OF ok sz]) simp_all
  have eq: "drawFastHLine ?q (- 32768) 0 (- 32767) 1 = hline_by_pixels ?q (- 32768) 0 (- 32767) 1"
    by (rule drawFastHLine_black_white [OF okq szq]) simp_all
  from e v vq eq show ?thesis by (intro conjI)
qed

text \<open>
  The two restrictions are needed. With the width \<open>-32768\<close> the normalisation of the
  width wraps around in 16 bits: on an 8 by 4 panel the run \<open>(32767, 0, -32768)\<close> in
  colour 1 leaves row 0 as it is, where the loop over \<open>0, \<dots>, 32767\<close> paints it. And on
  a 12 by 4 panel with the 6 bytes that \<open>begin\<close> allocates, the empty run \<open>(1, 3, 0)\<close>
  touches byte 6, behind the buffer, where the loop touches nothing.
\<close>

lemma drawFastHLine_black_white_limits:
  "map_option sharpmem_buffer (drawFastHLine (panel 8 4 0 (replicate 4 0)) 32767 0 (- 32768) 1) =
      Some [0, 0, 0, 0] \<and>
   map_option sharpmem_buffer (hline_by_pixels (panel 8 4 0 (replicate 4 0)) 32767 0 (- 32768) 1) =
      Some [0xFF, 0, 0, 0] \<and>
   drawFastHLine (panel 12 4 0 (replicate 6 0)) 1 3 0 1 = None \<and>
   hline_by_pixels (panel 12 4 0 (replicate 6 0)) 1 3 0 1 = Some (panel 12 4 0 (replicate 6 0))"
proof -
  let ?p = "panel 8 4 0 (replicate 4 0)"
  have cb: "map_option sharpmem_buffer (drawFastHLine ?p 32767 0 (- 32768) 1) = Some [0, 0, 0, 0]"
    by code_simp
  have pb: "map_option sharpmem_buffer (hline_by_pixels ?p 32767 0 (- 32768) 1) = Some [0xFF, 0, 0, 0]"
  proof -
    have first: "pixel_run ?p 0 0 8 1 = Some (?p\<lparr>sharpmem_buffer := [0xFF, 0, 0, 0]\<rparr>)"
      by code_simp
    have "hline_by_pixels ?p 32767 0 (- 32768) 1 = pixel_run ?p 0 0 (8 + 32760) 1"
      by (simp add: hline_by_pixels_def)
    also have "\<dots> = pixel_run (?p\<lparr>sharpmem_buffer := [0xFF, 0, 0, 0]\<rparr>) 8 0 32760 1"
      unfolding pixel_run_add first by simp
    also have "\<dots> = Some (?p\<lparr>sharpmem_buffer := [0xFF, 0, 0, 0]\<rparr>)"
      by (rule pixel_run_right) (simp_all add: panel_rot)
    finally show ?thesis by simp
  qed
  have cd: "drawFastHLine (panel 12 4 0 (replicate 6 0)) 1 3 0 1 = None" by code_simp
  have pd: "hline_by_pixels (panel 12 4 0 (replicate 6 0)) 1 3 0 1 = Some (panel 12 4 0 (replicate 6 0))"
    by (simp add: hline_by_pixels_def)
  from cb pb cd pd show ?thesis by (intro conjI)
qed

text \<open>
  Claim C2. For the colours 2 to 7 the run and the pixel loop give different buffers.
  On an 8 by 4 panel at rotation 0, all black, the run \<open>(0, 0, 8)\<close> leaves in byte 0 the
  row pattern of \<open>drawFastRawHLine\<close> and the loop leaves the pattern of \<open>drawPixel\<close>:
  \<open>0xAA\<close> and \<open>0x55\<close> for colour 2 (GRAY), \<open>0xAA\<close> and \<open>0x11\<close> for colour 3,
  \<open>0x55\<close> and \<open>0xEE\<close> for colour 4, \<open>0xEE\<close> and \<open>0xBB\<close> for colour 5, \<open>0xEE\<close> and
  \<open>0xB6\<close> for colour 6, \<open>0x77\<close> and \<open>0xDB\<close> for colour 7.
\<close>

theorem drawFastHLine_dither_differs:
  "map_option sharpmem_buffer (drawFastHLine (panel 8 4 0 (replicate 4 0)) 0 0 8 2) = Some [0xAA, 0, 0, 0] \<and>
   map_option sharpmem_buffer (hline_by_pixels (panel 8 4 0 (replicate 4 0)) 0 0 8 2) = Some [0x55, 0, 0, 0] \<and>
   map_option sharpmem_buffer (drawFastHLine (panel 8 4 0 (replicate 4 0)) 0 0 8 3) = Some [0xAA, 0, 0, 0] \<and>
   map_option sharpmem_buffer (hline_by_pixels (panel 8 4 0 (replicate 4 0)) 0 0 8 3) = Some [0x11, 0, 0, 0] \<and>
   map_option sharpmem_buffer (drawFastHLine (panel 8 4 0 (replicate 4 0)) 0 0 8 4) = Some [0x55, 0, 0, 0] \<and>
   map_option sharpmem_buffer (hline_by_pixels (panel 8 4 0 (replicate 4 0)) 0 0 8 4) = Some [0xEE, 0, 0, 0] \<and>
   map_option sharpmem_buffer (drawFastHLine (panel 8 4 0 (replicate 4 0)) 0 0 8 5) = Some [0xEE, 0, 0, 0] \<and>
   map_option sharpmem_buffer (hline_by_pixels (panel 8 4 0 (replicate 4 0)) 0 0 8 5) = Some [0xBB, 0, 0, 0] \<and>
   map_option sharpmem_buffer (drawFastHLine (panel 8 4 0 (replicate 4 0)) 0 0 8 6) = Some [0xEE, 0, 0, 0] \<and>
   map_option sharpmem_buffer (hline_by_pixels (panel 8 4 0 (replicate 4 0)) 0 0 8 6) = Some [0xB6, 0, 0, 0] \<and>
   map_option sharpmem_buffer (drawFastHLine (panel 8 4 0 (replicate 4 0)) 0 0 8 7) = Some [0x77, 0, 0, 0] \<and>
   map_option sharpmem_buffer (hline_by_pixels (panel 8 4 0 (replicate 4 0)) 0 0 8 7) = Some [0xDB, 0, 0, 0]"
proof -
  let ?p = "panel 8 4 0 (replicate 4 0)"
  have c2: "map_option sharpmem_buffer (drawFastHLine ?p 0 0 8 2) = Some [0xAA, 0, 0, 0]" by code_simp
  have p2: "map_option sharpmem_buffer (hline_by_pixels ?p 0 0 8 2) = Some [0x55, 0, 0, 0]" by code_simp
  have c3: "map_option sharpmem_buffer (drawFastHLine ?p 0 0 8 3) = Some [0xAA, 0, 0, 0]" by code_simp
  have p3: "map_option sharpmem_buffer (hline_by_pixels ?p 0 0 8 3) = Some [0x11, 0, 0, 0]" by code_simp
  have c4: "map_option sharpmem_buffer (drawFastHLine ?p 0 0 8 4) = Some [0x55, 0, 0, 0]" by code_simp
  have p4: "map_option sharpmem_buffer (hline_by_pixels ?p 0 0 8 4) = Some [0xEE, 0, 0, 0]" by code_simp
  have c5: "map_option sharpmem_buffer (drawFastHLine ?p 0 0 8 5) = Some [0xEE, 0, 0, 0]" by code_simp
  have p5: "map_option sharpmem_buffer (hline_by_pixels ?p 0 0 8 5) = Some [0xBB, 0, 0, 0]" by code_simp
  have c6: "map_option sharpmem_buffer (drawFastHLine ?p 0 0 8 6) = Some [0xEE, 0, 0, 0]" by code_simp
  have p6: "map_option sharpmem_buffer (hline_by_pixels ?p 0 0 8 6) = Some [0xB6, 0, 0, 0]" by code_simp
  have c7: "map_option sharpmem_buffer (drawFastHLine ?p 0 0 8 7) = Some [0x77, 0, 0, 0]" by code_simp
  have p7: "map_option sharpmem_buffer (hline_by_pixels ?p 0 0 8 7) = Some [0xDB, 0, 0, 0]" by code_simp
  from c2 p2 c3 p3 c4 p4 c5 p5 c6 p6 c7 p7 show ?thesis
    by (intro conjI)
qed

section \<open>Panels whose rows are whole bytes\<close>

text \<open>
  What the bulk operations, the row records and the pixel round trip do in general:
  the snapshot after a clear has \<open>(WIDTH * HEIGHT) / 8\<close> bytes, the address byte of
  row \<open>r\<close> is \<open>r + 1\<close> for a width that is a multiple of 8 from 16 on and \<open>r + 2\<close>
  for width 8, and with a width that is a multiple of 8, where the two index
  formulas of \<open>drawPixel\<close> and \<open>getPixel\<close> agree, a pixel drawn black or white is read
  back as drawn, under every rotation.
\<close>

lemma snapshot_after_clear:
  assumes "driver_ok s"
  shows "Option.bind (clearDisplayBuffer s) copyPixelBuffer =
           Some (replicate (nat ((WIDTH s * HEIGHT s) sdiv 8)) 0xFF)"
proof -
  from assms have len: "int (length (sharpmem_buffer s)) = (WIDTH s * HEIGHT s) sdiv 8"
    by (simp add: driver_ok_def)
  have n: "buffer_bytes s = int (length (sharpmem_buffer s))" by (rule buffer_bytes_ok [OF assms])
  have "clearDisplayBuffer s =
          Some (s\<lparr>sharpmem_buffer := replicate (length (sharpmem_buffer s)) 0xFF\<rparr>)"
    by (simp add: clearDisplayBuffer_def n memset_all with_buffer_def)
  moreover have "copyPixelBuffer (s\<lparr>sharpmem_buffer := replicate (length (sharpmem_buffer s)) 0xFF\<rparr>) =
          Some (replicate (length (sharpmem_buffer s)) 0xFF)"
    using n by (simp add: copyPixelBuffer_def buffer_bytes_def)
  ultimately show ?thesis using len by (simp flip: len)
qed

lemma row_record_address:
  assumes W: "0 < WIDTH s" "WIDTH s mod 8 = 0" and r: "int r < 65534"
  shows "row_record s (WIDTH s div 8) r =
           Transfer ([word_of_int (if WIDTH s = 8 then int r + 2 else int r + 1)]
                     @ take (nat (WIDTH s div 8))
                         (drop (nat (int r * (WIDTH s div 8))) (sharpmem_buffer s))
                     @ [0x00])"
proof -
  let ?bpl = "WIDTH s div 8"
  from W have bpl: "1 \<le> ?bpl" by presburger
  have sd: "WIDTH s sdiv 8 = ?bpl" using W by (simp add: sdiv_nonneg)
  have "(int r * ?bpl + 1) div ?bpl = int r + 1 div ?bpl"
    using bpl by (simp add: add.commute)
  moreover have "1 div ?bpl = (if ?bpl = 1 then 1 else 0)"
    using bpl by (auto simp: div_pos_pos_trivial)
  moreover have "?bpl = 1 \<longleftrightarrow> WIDTH s = 8" using W by presburger
  ultimately have d: "(int r * ?bpl + 1) div ?bpl + 1 = (if WIDTH s = 8 then int r + 2 else int r + 1)"
    by simp
  have nn: "0 \<le> int r * ?bpl + 1" using bpl by simp
  have "(int r * ?bpl + 1) sdiv ?bpl = (int r * ?bpl + 1) div ?bpl"
    using nn bpl by (intro sdiv_nonneg) simp_all
  then have "uint16 ((int r * ?bpl + 1) sdiv (WIDTH s sdiv 8) + 1) =
        (if WIDTH s = 8 then int r + 2 else int r + 1)"
    unfolding sd using d r by (simp add: uint16_id)
  then show ?thesis by (simp add: row_record_def)
qed

lemma and_bit_nonzero: "n < 8 \<Longrightarrow> (v AND 2 ^ n \<noteq> 0) \<longleftrightarrow> bit v n" for v :: uint8
  by (simp add: and_exp_eq_0_iff_not_bit)

lemma roundtrip_byte_aligned:
  assumes ok: "driver_ok s" and w8: "WIDTH s mod 8 = 0"
    and x: "0 \<le> x" "x < gfx_width s" and y: "0 \<le> y" "y < gfx_height s"
    and col: "color = 0 \<or> color = 1"
  shows "\<exists>s'. drawPixel s x y color = Some s' \<and> getPixel s' x y = Some color"
proof -
  from ok have g: "gfx_ok s"
    and len: "int (length (sharpmem_buffer s)) = (WIDTH s * HEIGHT s) sdiv 8"
    by (simp_all add: driver_ok_def)
  from g have W: "0 < WIDTH s" "WIDTH s \<le> 32767" and H: "0 < HEIGHT s" "HEIGHT s \<le> 32767"
    and rot: "rotation s = 0 \<or> rotation s = 1 \<or> rotation s = 2 \<or> rotation s = 3"
    and lw: "gfx_width s = (if rotation s = 1 \<or> rotation s = 3 then HEIGHT s else WIDTH s)"
    and lh: "gfx_height s = (if rotation s = 1 \<or> rotation s = 3 then WIDTH s else HEIGHT s)"
    by (simp_all add: gfx_ok_def)
  let ?rb = "(WIDTH s + 7) div 8"
  have rb: "?rb = WIDTH s div 8" using w8 by presburger
  have whole: "WIDTH s = 8 * ?rb" using w8 rb by presburger
  have prod: "WIDTH s * HEIGHT s = 8 * (?rb * HEIGHT s)" by (subst whole) simp
  have "(WIDTH s * HEIGHT s) div 8 = ?rb * HEIGHT s" unfolding prod by simp
  moreover have "0 \<le> WIDTH s * HEIGHT s" using W H by simp
  ultimately have "(WIDTH s * HEIGHT s) sdiv 8 = ?rb * HEIGHT s"
    by (simp add: sdiv_nonneg)
  with len have sz: "?rb * HEIGHT s \<le> int (length (sharpmem_buffer s))" by simp
  obtain rx ry where r: "spec_rot (rotation s) (WIDTH s) (HEIGHT s) (x, y) = (rx, ry)" by force
  have rng: "0 \<le> rx \<and> rx < WIDTH s \<and> 0 \<le> ry \<and> ry < HEIGHT s"
    using rot r x y lw lh by (auto simp: spec_rot_def split: if_splits)
  from drawPixel_paints [OF g x y sz col] obtain b' where
    d: "drawPixel s x y color = Some (s\<lparr>sharpmem_buffer := b'\<rparr>)"
    and p: "paints ?rb (\<lambda>px py. (px, py) = (rx, ry)) (color = 1) (sharpmem_buffer s) b'"
    unfolding r by blast
  let ?s' = "s\<lparr>sharpmem_buffer := b'\<rparr>"
  have code: "(if rotation s = 1 then (uint16 (WIDTH s - 1 - y), x)
               else if rotation s = 2 then (uint16 (WIDTH s - 1 - x), uint16 (HEIGHT s - 1 - y))
               else if rotation s = 3 then (y, uint16 (HEIGHT s - 1 - x))
               else (x, y)) = (rx, ry)"
    using rot r x y lw lh W H by (auto simp: spec_rot_def uint16_id split: if_splits)
  let ?k = "rx div 8 + ry * ?rb"
  have flat: "(ry * WIDTH s + rx) sdiv 8 = ?k"
  proof -
    define rbv where "rbv = (WIDTH s + 7) div 8"
    have wv: "WIDTH s = 8 * rbv" using whole by (simp add: rbv_def)
    have "ry * (8 * rbv) + rx = rx + ry * rbv * 8" by simp
    also have "\<dots> div 8 = rx div 8 + ry * rbv" by simp
    finally have "(ry * WIDTH s + rx) div 8 = rx div 8 + ry * rbv" unfolding wv .
    moreover have "0 \<le> ry * WIDTH s + rx" using rng W by simp
    ultimately show ?thesis by (simp add: sdiv_nonneg rbv_def)
  qed
  note c = raw_pixel_cell [OF W, of rx]
  from rng have rx: "0 \<le> rx" "rx < WIDTH s" and ry: "0 \<le> ry" "ry < HEIGHT s" by simp_all
  have "0 \<le> rx div 8 + 1" using c(4) [OF rx] by simp
  from row_cell_in_buffer [OF ry this c(5) [OF rx] sz]
    row_cell_in_buffer [OF ry c(4) [OF rx] _ sz] c(5) [OF rx]
  have kr: "0 \<le> ?k" "?k < int (length (sharpmem_buffer s))" by (simp_all add: algebra_simps)
  have lenb: "length b' = length (sharpmem_buffer s)" using p by (simp add: paints_def)
  have nk: "nat ?k < length (sharpmem_buffer s)" using kr by simp
  have n8: "nat (rx AND 7) < 8" by (rule c(7) [OF rx])
  have cellk: "int (nat ?k) = rx div 8 + ry * ?rb \<and> int (nat (rx AND 7)) = rx mod 8"
    using kr by (simp add: and7_mod)
  from p nk n8 have "bit (b' ! nat ?k) (nat (rx AND 7)) =
      (if \<exists>px py. (px, py) = (rx, ry) \<and> int (nat ?k) = px div 8 + py * ?rb \<and>
            int (nat (rx AND 7)) = px mod 8
       then color = 1 else bit (sharpmem_buffer s ! nat ?k) (nat (rx AND 7)))"
    unfolding paints_def by blast
  moreover have "\<exists>px py. (px, py) = (rx, ry) \<and> int (nat ?k) = px div 8 + py * ?rb \<and>
            int (nat (rx AND 7)) = px mod 8"
    using cellk by blast
  ultimately have bitv: "bit (b' ! nat ?k) (nat (rx AND 7)) \<longleftrightarrow> color = 1" by simp
  have inside: "\<not> (gfx_width ?s' \<le> x \<or> gfx_height ?s' \<le> y)" using x y by simp
  have f: "rotation ?s' = rotation s" "WIDTH ?s' = WIDTH s" "HEIGHT ?s' = HEIGHT s"
    "sharpmem_buffer ?s' = b'" by simp_all
  have "getPixel ?s' x y =
          map_option (\<lambda>v. if v AND set_tbl ! nat (rx AND 7) \<noteq> 0 then 1 else 0)
            (peek b' ((ry * WIDTH s + rx) sdiv 8))"
    unfolding getPixel_def Let_def
    by (simp only: inside if_False f code prod.case)
  also have "\<dots> = Some (if bit (b' ! nat ?k) (nat (rx AND 7)) then 1 else 0)"
    unfolding flat using kr lenb
    by (simp add: peek_def c(8) [OF rx] and_bit_nonzero [OF n8])
  also have "\<dots> = Some color" using bitv col by auto
  finally show ?thesis using d by blast
qed

section \<open>The rotation mapping\<close>

text \<open>The byte and the bit that \<open>drawPixel\<close> and \<open>getPixel\<close> address, in raw coordinates.\<close>

lemma drawPixel_cell:
  assumes ok: "gfx_ok s" and x: "0 \<le> x" "x < gfx_width s" and y: "0 \<le> y" "y < gfx_height s"
    and r: "spec_rot (rotation s) (WIDTH s) (HEIGHT s) (x, y) = (rx, ry)"
  shows "\<exists>white. drawPixel s x y color =
           with_buffer s (poke (sharpmem_buffer s)
              (if 2 \<le> color \<and> color \<le> 7 then (ry * WIDTH s + rx) div 8
               else rx div 8 + ry * ((WIDTH s + 7) div 8))
              (\<lambda>u. if white then u OR 2 ^ nat (rx mod 8) else u AND NOT (2 ^ nat (rx mod 8)))) \<and>
         (color = 1 \<longrightarrow> white) \<and> (color = 0 \<longrightarrow> \<not> white)"
proof -
  from ok have W: "0 < WIDTH s" "WIDTH s \<le> 32767" and H: "0 < HEIGHT s" "HEIGHT s \<le> 32767"
    and rot: "rotation s = 0 \<or> rotation s = 1 \<or> rotation s = 2 \<or> rotation s = 3"
    and lw: "gfx_width s = (if rotation s = 1 \<or> rotation s = 3 then HEIGHT s else WIDTH s)"
    and lh: "gfx_height s = (if rotation s = 1 \<or> rotation s = 3 then WIDTH s else HEIGHT s)"
    by (simp_all add: gfx_ok_def)
  have rng: "0 \<le> rx" "rx < WIDTH s" "0 \<le> ry" "ry < HEIGHT s"
    using rot r x y lw lh by (auto simp: spec_rot_def split: if_splits)
  have code: "(if rotation s = 1 then (int16 (WIDTH s - 1 - y), x)
               else if rotation s = 2 then (int16 (WIDTH s - 1 - x), int16 (HEIGHT s - 1 - y))
               else if rotation s = 3 then (y, int16 (HEIGHT s - 1 - x))
               else (x, y)) = (rx, ry)"
    using rot r x y lw lh W H by (auto simp: spec_rot_def int16_id split: if_splits)
  from x y have inside: "\<not> (x < 0 \<or> gfx_width s \<le> x \<or> y < 0 \<or> gfx_height s \<le> y)"
    by simp
  note c = raw_pixel_cell [OF W rng(1,2)]
  have flat: "(ry * WIDTH s + rx) sdiv 8 = (ry * WIDTH s + rx) div 8"
    using rng W by (intro sdiv_nonneg) simp_all
  have tb: "set_tbl ! nat (rx AND 7) = 2 ^ nat (rx mod 8)"
    "clr_tbl ! nat (rx AND 7) = NOT (2 ^ nat (rx mod 8))"
    using c(8,9) by (simp_all add: and7_mod)
  define S where "S = (\<lambda>u :: uint8. u OR 2 ^ nat (rx mod 8))"
  define C where "C = (\<lambda>u :: uint8. u AND NOT (2 ^ nat (rx mod 8)))"
  define k1 where "k1 = rx div 8 + ry * ((WIDTH s + 7) div 8)"
  define k2 where "k2 = (ry * WIDTH s + rx) div 8"
  define A where "A = (\<lambda>k f. with_buffer s (poke (sharpmem_buffer s) k f))"
  have dp: "drawPixel s x y color =
          (if color = 1 then A k1 S
          else if color = 7 then
            (if ry smod 3 = 2 - (rx smod 3) then A k2 C else A k2 S)
          else if color = 6 then
            (if ry smod 3 = rx smod 3 then A k2 C else A k2 S)
          else if color = 5 then
            (if (ry smod 4 = 0 \<and> rx smod 4 = 2) \<or> (rx smod 2 = 1 \<and> ry smod 2 = 1)
                \<or> (ry smod 4 = 2 \<and> rx smod 4 = 0)
             then A k2 C else A k2 S)
          else if color = 4 then
            (if ry smod 2 \<noteq> 0 then A k2 S
             else if (rx + 2 * ((ry sdiv 2) smod 2)) smod 4 = 0 then A k2 C else A k2 S)
          else if color = 3 then
            (if ry smod 2 \<noteq> 0 then A k2 C
             else if (rx + 2 * ((ry sdiv 2) smod 2)) smod 4 = 0 then A k2 S else A k2 C)
          else if color = 2 then
            (if (rx + ry) smod 2 = 0 then A k2 S else A k2 C)
          else A k1 C)"
    unfolding drawPixel_def code Let_def A_def S_def C_def k1_def k2_def
    by (simp only: inside if_False prod.case c(2) c(3) flat tb)
  have pick: "\<exists>white. (if b then A k C else A k S) =
       A k (\<lambda>u. if white then S u else C u) \<and> (color = 1 \<longrightarrow> white) \<and> (color = 0 \<longrightarrow> \<not> white)"
    if "color \<noteq> 1" "color \<noteq> 0" for b k
    using that by (cases b) (auto intro: exI [of _ True] exI [of _ False])
  have pick': "\<exists>white. (if b then A k S else A k C) =
       A k (\<lambda>u. if white then S u else C u) \<and> (color = 1 \<longrightarrow> white) \<and> (color = 0 \<longrightarrow> \<not> white)"
    if "color \<noteq> 1" "color \<noteq> 0" for b k
    using that by (cases b) (auto intro: exI [of _ True] exI [of _ False])
  have goal: "\<exists>white. drawPixel s x y color =
           A (if 2 \<le> color \<and> color \<le> 7 then k2 else k1) (\<lambda>u. if white then S u else C u) \<and>
         (color = 1 \<longrightarrow> white) \<and> (color = 0 \<longrightarrow> \<not> white)"
  proof -
    consider "color = 1" | "color = 7" | "color = 6" | "color = 5" | "color = 4" | "color = 3"
      | "color = 2" | "color < 1 \<or> 7 < color" by linarith
    then show ?thesis
    proof cases
      case 1
      then show ?thesis unfolding dp by (intro exI [of _ True]) simp
    next
      case 2
      then show ?thesis unfolding dp using pick [of "ry smod 3 = 2 - (rx smod 3)" k2] by simp
    next
      case 3
      then show ?thesis unfolding dp using pick [of "ry smod 3 = rx smod 3" k2] by simp
    next
      case 4
      then show ?thesis unfolding dp
        using pick [of "(ry smod 4 = 0 \<and> rx smod 4 = 2) \<or> (rx smod 2 = 1 \<and> ry smod 2 = 1)
                \<or> (ry smod 4 = 2 \<and> rx smod 4 = 0)" k2] by simp
    next
      case 5
      then have "drawPixel s x y color =
          (if ry smod 2 = 0 \<and> (rx + 2 * ((ry sdiv 2) smod 2)) smod 4 = 0 then A k2 C else A k2 S)"
        unfolding dp by simp
      then show ?thesis
        using 5 pick [of "ry smod 2 = 0 \<and> (rx + 2 * ((ry sdiv 2) smod 2)) smod 4 = 0" k2]
        by simp
    next
      case 6
      then have "drawPixel s x y color =
          (if ry smod 2 = 0 \<and> (rx + 2 * ((ry sdiv 2) smod 2)) smod 4 = 0 then A k2 S else A k2 C)"
        unfolding dp by simp
      then show ?thesis
        using 6 pick' [of "ry smod 2 = 0 \<and> (rx + 2 * ((ry sdiv 2) smod 2)) smod 4 = 0" k2]
        by simp
    next
      case 7
      then show ?thesis unfolding dp using pick' [of "(rx + ry) smod 2 = 0" k2] by simp
    next
      case 8
      then have n: "color \<noteq> 1" "color \<noteq> 7" "color \<noteq> 6" "color \<noteq> 5" "color \<noteq> 4" "color \<noteq> 3"
        "color \<noteq> 2" "\<not> (2 \<le> color \<and> color \<le> 7)" by auto
      show ?thesis unfolding dp by (intro exI [of _ False]) (simp add: n)
    qed
  qed
  then show ?thesis unfolding A_def S_def C_def k1_def k2_def .
qed

lemma getPixel_cell:
  assumes ok: "gfx_ok s" and x: "0 \<le> x" "x < gfx_width s" and y: "0 \<le> y" "y < gfx_height s"
    and r: "spec_rot (rotation s) (WIDTH s) (HEIGHT s) (x, y) = (rx, ry)"
  shows "getPixel s x y =
           (if (ry * WIDTH s + rx) div 8 < int (length (sharpmem_buffer s))
            then Some (if bit (sharpmem_buffer s ! nat ((ry * WIDTH s + rx) div 8)) (nat (rx mod 8))
                       then 1 else 0)
            else None)"
proof -
  from ok have W: "0 < WIDTH s" "WIDTH s \<le> 32767" and H: "0 < HEIGHT s" "HEIGHT s \<le> 32767"
    and rot: "rotation s = 0 \<or> rotation s = 1 \<or> rotation s = 2 \<or> rotation s = 3"
    and lw: "gfx_width s = (if rotation s = 1 \<or> rotation s = 3 then HEIGHT s else WIDTH s)"
    and lh: "gfx_height s = (if rotation s = 1 \<or> rotation s = 3 then WIDTH s else HEIGHT s)"
    by (simp_all add: gfx_ok_def)
  have rng: "0 \<le> rx" "rx < WIDTH s" "0 \<le> ry" "ry < HEIGHT s"
    using rot r x y lw lh by (auto simp: spec_rot_def split: if_splits)
  have code: "(if rotation s = 1 then (uint16 (WIDTH s - 1 - y), x)
               else if rotation s = 2 then (uint16 (WIDTH s - 1 - x), uint16 (HEIGHT s - 1 - y))
               else if rotation s = 3 then (y, uint16 (HEIGHT s - 1 - x))
               else (x, y)) = (rx, ry)"
    using rot r x y lw lh W H by (auto simp: spec_rot_def uint16_id split: if_splits)
  from x y have inside: "\<not> (gfx_width s \<le> x \<or> gfx_height s \<le> y)" by simp
  note c = raw_pixel_cell [OF W rng(1,2)]
  have flat: "(ry * WIDTH s + rx) sdiv 8 = (ry * WIDTH s + rx) div 8"
    using rng W by (intro sdiv_nonneg) simp_all
  have "0 \<le> ry * WIDTH s + rx" using rng W by simp
  then have k0: "0 \<le> (ry * WIDTH s + rx) div 8" by simp
  have tb: "set_tbl ! nat (rx AND 7) = 2 ^ nat (rx mod 8)" using c(8) by (simp add: and7_mod)
  have n8: "nat (rx mod 8) < 8" by simp
  have gp: "getPixel s x y =
      map_option (\<lambda>v. if v AND 2 ^ nat (rx mod 8) \<noteq> 0 then 1 else 0)
        (peek (sharpmem_buffer s) ((ry * WIDTH s + rx) div 8))"
    unfolding getPixel_def code Let_def
    by (simp only: inside if_False prod.case flat tb)
  show ?thesis unfolding gp peek_def using k0 by (simp add: and_bit_nonzero [OF n8])
qed

lemma rotation_same_as_raw:
  assumes "gfx_ok s" and "0 \<le> x" and "x < gfx_width s" and "0 \<le> y" and "y < gfx_height s"
    and "spec_rot (rotation s) (WIDTH s) (HEIGHT s) (x, y) = (rx, ry)"
  shows "0 \<le> rx \<and> rx < WIDTH s \<and> 0 \<le> ry \<and> ry < HEIGHT s \<and>
         map_option sharpmem_buffer (drawPixel s x y color) =
           map_option sharpmem_buffer (drawPixel (setRotation s 0) rx ry color) \<and>
         getPixel s x y = getPixel (setRotation s 0) rx ry"
proof -
  from assms(1) have dims: "0 < WIDTH s" "WIDTH s \<le> 32767" "0 < HEIGHT s" "HEIGHT s \<le> 32767"
    and rot: "rotation s = 0 \<or> rotation s = 1 \<or> rotation s = 2 \<or> rotation s = 3"
    and lw: "gfx_width s = (if rotation s = 1 \<or> rotation s = 3 then HEIGHT s else WIDTH s)"
    and lh: "gfx_height s = (if rotation s = 1 \<or> rotation s = 3 then WIDTH s else HEIGHT s)"
    by (simp_all add: gfx_ok_def)
  have raw: "rotation (setRotation s 0) = 0" "gfx_width (setRotation s 0) = WIDTH s"
    "gfx_height (setRotation s 0) = HEIGHT s" "WIDTH (setRotation s 0) = WIDTH s"
    "HEIGHT (setRotation s 0) = HEIGHT s" "sharpmem_buffer (setRotation s 0) = sharpmem_buffer s"
    by (simp_all add: setRotation_def)
  have buf: "map_option sharpmem_buffer (with_buffer t r) = r" for t r
    by (cases r) (simp_all add: with_buffer_def)
  from rot show ?thesis
  proof (elim disjE)
    assume r: "rotation s = 0"
    with assms lw lh have m: "rx = x" "ry = y" "x < WIDTH s" "y < HEIGHT s"
      by (simp_all add: spec_rot_def)
    show ?thesis using assms(2,4) m r lw lh
      by (simp add: drawPixel_def getPixel_def raw Let_def buf if_distrib [of "map_option sharpmem_buffer"] cong: if_cong)
  next
    assume r: "rotation s = 1"
    with assms lw lh have m: "rx = WIDTH s - 1 - y" "ry = x" "x < HEIGHT s" "y < WIDTH s"
      by (simp_all add: spec_rot_def)
    have c: "int16 (WIDTH s - 1 - y) = WIDTH s - 1 - y" "uint16 (WIDTH s - 1 - y) = WIDTH s - 1 - y"
      using assms(4) m dims by (simp_all add: int16_id uint16_id)
    show ?thesis using assms(2,4) m r lw lh dims
      by (simp add: drawPixel_def getPixel_def raw Let_def buf c if_distrib [of "map_option sharpmem_buffer"] cong: if_cong)
  next
    assume r: "rotation s = 2"
    with assms lw lh have m: "rx = WIDTH s - 1 - x" "ry = HEIGHT s - 1 - y" "x < WIDTH s" "y < HEIGHT s"
      by (simp_all add: spec_rot_def)
    have c: "int16 (WIDTH s - 1 - x) = WIDTH s - 1 - x" "uint16 (WIDTH s - 1 - x) = WIDTH s - 1 - x"
       "int16 (HEIGHT s - 1 - y) = HEIGHT s - 1 - y" "uint16 (HEIGHT s - 1 - y) = HEIGHT s - 1 - y"
      using assms(2,4) m dims by (simp_all add: int16_id uint16_id)
    show ?thesis using assms(2,4) m r lw lh dims
      by (simp add: drawPixel_def getPixel_def raw Let_def buf c if_distrib [of "map_option sharpmem_buffer"] cong: if_cong)
  next
    assume r: "rotation s = 3"
    with assms lw lh have m: "rx = y" "ry = HEIGHT s - 1 - x" "x < HEIGHT s" "y < WIDTH s"
      by (simp_all add: spec_rot_def)
    have c: "int16 (HEIGHT s - 1 - x) = HEIGHT s - 1 - x" "uint16 (HEIGHT s - 1 - x) = HEIGHT s - 1 - x"
      using assms(2,4) m dims by (simp_all add: int16_id uint16_id)
    show ?thesis using assms(2,4) m r lw lh dims
      by (simp add: drawPixel_def getPixel_def raw Let_def buf c if_distrib [of "map_option sharpmem_buffer"] cong: if_cong)
  qed
qed

text \<open>
  Claim C5. Let \<open>(rx, ry)\<close> be the point that the rotation table of the specification
  gives for a logical point \<open>(x, y)\<close> inside the canvas; it lies inside the raw panel.
  \<open>getPixel\<close> at \<open>(x, y)\<close> returns bit \<open>rx mod 8\<close> of byte \<open>(ry * WIDTH + rx) div 8\<close>.
  \<open>drawPixel\<close> at \<open>(x, y)\<close> replaces one byte, byte \<open>rx div 8 + ry * ((WIDTH + 7) div 8)\<close>
  for the colours 0 and 1 and byte \<open>(ry * WIDTH + rx) div 8\<close> for the colours 2 to 7, in
  which no bit other than bit \<open>rx mod 8\<close> changes; colour 1 sets that bit and colour 0
  clears it; a byte outside the buffer is an error. Both functions do what they do at
  rotation 0 at \<open>(rx, ry)\<close>. On the 16 by 8 panel of the claim, logical \<open>(0, 0)\<close> under
  rotation 1 and raw \<open>(15, 0)\<close> set the same bit, bit 7 of byte 1, which \<open>getPixel\<close> then
  reads at logical \<open>(0, 0)\<close>.
\<close>

theorem rotation_mapping:
  assumes ok: "gfx_ok s" and x: "0 \<le> x" "x < gfx_width s" and y: "0 \<le> y" "y < gfx_height s"
    and r: "spec_rot (rotation s) (WIDTH s) (HEIGHT s) (x, y) = (rx, ry)"
  shows "0 \<le> rx \<and> rx < WIDTH s \<and> 0 \<le> ry \<and> ry < HEIGHT s \<and>
         getPixel s x y =
           (if (ry * WIDTH s + rx) div 8 < int (length (sharpmem_buffer s))
            then Some (if bit (sharpmem_buffer s ! nat ((ry * WIDTH s + rx) div 8)) (nat (rx mod 8))
                       then 1 else 0)
            else None) \<and>
         (let k = (if 2 \<le> color \<and> color \<le> 7 then (ry * WIDTH s + rx) div 8
                   else rx div 8 + ry * ((WIDTH s + 7) div 8))
          in 0 \<le> k \<and>
             (if k < int (length (sharpmem_buffer s))
              then \<exists>v. drawPixel s x y color =
                         Some (s\<lparr>sharpmem_buffer := (sharpmem_buffer s)[nat k := v]\<rparr>) \<and>
                       (\<forall>b < 8. b \<noteq> nat (rx mod 8) \<longrightarrow>
                                bit v b = bit (sharpmem_buffer s ! nat k) b) \<and>
                       (color = 1 \<longrightarrow> bit v (nat (rx mod 8))) \<and>
                       (color = 0 \<longrightarrow> \<not> bit v (nat (rx mod 8)))
              else drawPixel s x y color = None)) \<and>
         map_option sharpmem_buffer (drawPixel s x y color) =
           map_option sharpmem_buffer (drawPixel (setRotation s 0) rx ry color) \<and>
         getPixel s x y = getPixel (setRotation s 0) rx ry"
proof -
  note rel = rotation_same_as_raw [OF ok x y r, of color]
  then have rng: "0 \<le> rx" "rx < WIDTH s" "0 \<le> ry" "ry < HEIGHT s" by simp_all
  from ok have W: "0 < WIDTH s" by (simp add: gfx_ok_def)
  define k where "k = (if 2 \<le> color \<and> color \<le> 7 then (ry * WIDTH s + rx) div 8
                   else rx div 8 + ry * ((WIDTH s + 7) div 8))"
  define n where "n = nat (rx mod 8)"
  define buf where "buf = sharpmem_buffer s"
  have n8: "n < 8" by (simp add: n_def)
  have k0: "0 \<le> k"
  proof -
    have "0 \<le> ry * WIDTH s + rx" using rng W by simp
    then have "0 \<le> (ry * WIDTH s + rx) div 8" by simp
    moreover have "0 \<le> ry * ((WIDTH s + 7) div 8)" using rng W by simp
    then have "0 \<le> rx div 8 + ry * ((WIDTH s + 7) div 8)" using rng by simp
    ultimately show ?thesis by (simp add: k_def)
  qed
  from drawPixel_cell [OF ok x y r, of color] obtain white where
    dp: "drawPixel s x y color =
           with_buffer s (poke buf k (\<lambda>u. if white then u OR 2 ^ n else u AND NOT (2 ^ n)))"
    and w1: "color = 1 \<longrightarrow> white" and w0: "color = 0 \<longrightarrow> \<not> white"
    unfolding k_def n_def buf_def by blast
  have cell: "if k < int (length buf)
              then \<exists>v. drawPixel s x y color = Some (s\<lparr>sharpmem_buffer := buf[nat k := v]\<rparr>) \<and>
                       (\<forall>b < 8. b \<noteq> n \<longrightarrow> bit v b = bit (buf ! nat k) b) \<and>
                       (color = 1 \<longrightarrow> bit v n) \<and> (color = 0 \<longrightarrow> \<not> bit v n)
              else drawPixel s x y color = None"
  proof (cases "k < int (length buf)")
    case False
    then show ?thesis unfolding dp by (simp add: poke_def with_buffer_def)
  next
    case True
    define v where "v = (if white then buf ! nat k OR 2 ^ n else buf ! nat k AND NOT (2 ^ n))"
    have "drawPixel s x y color = Some (s\<lparr>sharpmem_buffer := buf[nat k := v]\<rparr>)"
      unfolding dp using True k0 by (simp add: poke_def with_buffer_def v_def)
    moreover have "bit v b = bit (buf ! nat k) b" if "b < 8" "b \<noteq> n" for b
      using that n8 by (simp add: v_def bit_or_iff bit_and_iff bit_not_iff bit_two_pow)
    moreover have "bit v n \<longleftrightarrow> white"
      using n8 by (simp add: v_def bit_or_iff bit_and_iff bit_not_iff bit_two_pow)
    ultimately show ?thesis using True w1 w0 by (intro exI [of _ v] | simp)+
  qed
  have gp: "getPixel s x y =
           (if (ry * WIDTH s + rx) div 8 < int (length (sharpmem_buffer s))
            then Some (if bit (sharpmem_buffer s ! nat ((ry * WIDTH s + rx) div 8)) (nat (rx mod 8))
                       then 1 else 0)
            else None)"
    by (rule getPixel_cell [OF ok x y r])
  have dpart: "(let k = (if 2 \<le> color \<and> color \<le> 7 then (ry * WIDTH s + rx) div 8
                   else rx div 8 + ry * ((WIDTH s + 7) div 8))
          in 0 \<le> k \<and>
             (if k < int (length (sharpmem_buffer s))
              then \<exists>v. drawPixel s x y color =
                         Some (s\<lparr>sharpmem_buffer := (sharpmem_buffer s)[nat k := v]\<rparr>) \<and>
                       (\<forall>b < 8. b \<noteq> nat (rx mod 8) \<longrightarrow>
                                bit v b = bit (sharpmem_buffer s ! nat k) b) \<and>
                       (color = 1 \<longrightarrow> bit v (nat (rx mod 8))) \<and>
                       (color = 0 \<longrightarrow> \<not> bit v (nat (rx mod 8)))
              else drawPixel s x y color = None))"
    unfolding Let_def k_def [symmetric] n_def [symmetric] buf_def [symmetric]
    using k0 cell by (rule conjI)
  from rel gp dpart show ?thesis by (intro conjI) simp_all
qed

theorem rotation_mapping_witness:
  "getPixel (panel 16 8 1 (replicate 16 0)) 0 0 = Some 0 \<and>
   drawPixel (panel 16 8 1 (replicate 16 0)) 0 0 1 =
     Some (panel 16 8 1 ([0, 0x80] @ replicate 14 0)) \<and>
   getPixel (panel 16 8 1 ([0, 0x80] @ replicate 14 0)) 0 0 = Some 1 \<and>
   map_option sharpmem_buffer (drawPixel (setRotation (panel 16 8 1 (replicate 16 0)) 0) 15 0 1) =
     Some ([0, 0x80] @ replicate 14 0)"
proof -
  let ?p = "panel 16 8 1 (replicate 16 0)"
  have ok: "gfx_ok ?p"
    by (simp add: gfx_ok_def panel_simps panel_rot)
  have m: "spec_rot (rotation ?p) (WIDTH ?p) (HEIGHT ?p) (0, 0) = (15, 0)"
    by (simp add: spec_rot_def panel_simps panel_rot)
  have v: "drawPixel ?p 0 0 1 = Some (panel 16 8 1 ([0, 0x80] @ replicate 14 0))"
    by code_simp
  have g: "getPixel (panel 16 8 1 ([0, 0x80] @ replicate 14 0)) 0 0 = Some 1"
    by code_simp
  have b: "\<not> bit (replicate 16 (0 :: uint8) ! nat (15 div 8)) (nat (15 mod 8))"
    by simp
  have bs: "sharpmem_buffer (panel 16 8 1 ([0, 0x80] @ replicate 14 0)) = [0, 0x80] @ replicate 14 0"
    by (simp add: panel_simps)
  from rotation_mapping [OF ok _ _ _ _ m, of 1] v g b bs show ?thesis
    by (simp add: panel_rot panel_simps)
qed

end
